theory Spec2Isabelle
  imports Main "HOL-Library.Word"
begin

unbundle bit_operations_syntax

section \<open>Node.js buffers and JavaScript values\<close>

text \<open>
  A Node.js \<open>Buffer\<close> is a list of bytes. JavaScript numbers that hold offsets, sizes and
  decoded fields are doubles whose values are integers; they are written as \<open>int\<close>. A double
  holds every integer of magnitude up to \<open>2 ^ 53\<close> exactly, and sums and products of
  such numbers are exact as long as they stay in that range, which they do for the 8-bit,
  16-bit and 32-bit fields and the positions inside a buffer. Larger numbers arise in
  \<open>readGameFiles\<close>, which converts 64-bit fields with \<open>Number(...)\<close>: there the rounding is
  written out; and from \<open>parseInt\<close> on a long run of digits, as said where it is defined.
  \<open>BigInt\<close> values are \<open>int\<close>. A JavaScript
  string is its sequence of UTF-16 code units. \<open>null\<close>, \<open>undefined\<close> and \<open>NaN\<close> are
  \<open>None\<close> of an option type. A thrown exception is the \<open>Inl\<close> of a sum.
\<close>

type_synonym byte = "8 word"
type_synonym buffer = "byte list"
type_synonym jsstring = "16 word list"

text \<open>
  The exceptions of the save manager. \<open>OutOfBounds\<close> stands for the range errors raised by the
  typed reads and writes of \<open>Buffer\<close> and by a negative target position of \<open>Buffer.copy\<close>;
  \<open>UnknownEncoding\<close> for the type error of \<open>toString\<close> on an encoding Node.js does not know.
  \<open>BadMagic\<close> is "Invalid save file format. Expected BND4.", \<open>UnknownTableFormat\<close> is
  "Unknown file table format", \<open>TargetSlotNotFound\<close> is "Target save slot ... not found" and
  \<open>StatsNotFound\<close> is "Could not find character stats".
\<close>

datatype error =
  BadMagic | UnknownTableFormat | OutOfBounds | UnknownEncoding | TargetSlotNotFound | StatsNotFound

definition ebind :: "error + 'a \<Rightarrow> ('a \<Rightarrow> error + 'b) \<Rightarrow> error + 'b" where
  "ebind m f = (case m of Inl e \<Rightarrow> Inl e | Inr x \<Rightarrow> f x)"

definition str :: "string \<Rightarrow> jsstring" where
  "str s = map (\<lambda>c. of_nat (of_char c)) s"

text \<open>\<open>buf[i]\<close>: the byte as a number, \<open>undefined\<close> outside the buffer.\<close>

definition Buffer_get :: "buffer \<Rightarrow> int \<Rightarrow> int option" where
  "Buffer_get buf i = (if 0 \<le> i \<and> i < int (length buf) then Some (uint (buf ! nat i)) else None)"

text \<open>\<open>buf[i] = v\<close> for a byte value \<open>v\<close>: ignored outside the buffer.\<close>

definition Buffer_set :: "buffer \<Rightarrow> int \<Rightarrow> byte \<Rightarrow> buffer" where
  "Buffer_set buf i v = (if 0 \<le> i \<and> i < int (length buf) then buf[nat i := v] else buf)"

text \<open>
  \<open>buf.slice(start, end)\<close>: a negative index counts from the end, and both indices are
  clamped to the buffer; nothing is raised.
\<close>

definition adjustOffset :: "int \<Rightarrow> nat \<Rightarrow> nat" where
  "adjustOffset i len =
     (if i < 0 then (if 0 < i + int len then nat (i + int len) else 0)
      else if i < int len then nat i else len)"

definition Buffer_slice :: "buffer \<Rightarrow> int \<Rightarrow> int \<Rightarrow> buffer" where
  "Buffer_slice buf start end =
     (let s = adjustOffset start (length buf); e = adjustOffset end (length buf)
      in take (e - s) (drop s buf))"

definition Buffer_sliceFrom :: "buffer \<Rightarrow> int \<Rightarrow> buffer" where
  "Buffer_sliceFrom buf start = drop (adjustOffset start (length buf)) buf"

text \<open>
  \<open>source.copy(target, targetStart)\<close>, returning the target after the copy. A negative
  \<open>targetStart\<close> raises; a start at or after the end of the target copies nothing; otherwise
  as many bytes are copied as fit and the target keeps its length.
\<close>

definition Buffer_copy :: "buffer \<Rightarrow> buffer \<Rightarrow> int \<Rightarrow> error + buffer" where
  "Buffer_copy source target targetStart =
     (if targetStart < 0 then Inl OutOfBounds
      else if int (length target) \<le> targetStart then Inr target
      else let p = nat targetStart; n = min (length source) (length target - p)
           in Inr (take p target @ take n source @ drop (p + n) target))"

text \<open>The typed reads of \<open>Buffer\<close>: a range error unless every byte read is inside.\<close>

definition Buffer_readUInt8 :: "buffer \<Rightarrow> int \<Rightarrow> error + int" where
  "Buffer_readUInt8 buf off =
     (if 0 \<le> off \<and> off + 1 \<le> int (length buf) then Inr (uint (buf ! nat off))
      else Inl OutOfBounds)"

definition Buffer_readUInt16LE :: "buffer \<Rightarrow> int \<Rightarrow> error + int" where
  "Buffer_readUInt16LE buf off =
     (if 0 \<le> off \<and> off + 2 \<le> int (length buf)
      then Inr (uint (buf ! nat off) + uint (buf ! (nat off + 1)) * 2 ^ 8)
      else Inl OutOfBounds)"

definition leValue :: "byte list \<Rightarrow> int" where
  "leValue bs = foldr (\<lambda>b v. uint b + 256 * v) bs 0"

definition toSigned :: "nat \<Rightarrow> int \<Rightarrow> int" where
  "toSigned w v = (if v < 2 ^ (w - 1) then v else v - 2 ^ w)"

definition Buffer_readInt32LE :: "buffer \<Rightarrow> int \<Rightarrow> error + int" where
  "Buffer_readInt32LE buf off =
     (if 0 \<le> off \<and> off + 4 \<le> int (length buf)
      then Inr (toSigned 32 (leValue (take 4 (drop (nat off) buf))))
      else Inl OutOfBounds)"

definition Buffer_readBigInt64LE :: "buffer \<Rightarrow> int \<Rightarrow> error + int" where
  "Buffer_readBigInt64LE buf off =
     (if 0 \<le> off \<and> off + 8 \<le> int (length buf)
      then Inr (toSigned 64 (leValue (take 8 (drop (nat off) buf))))
      else Inl OutOfBounds)"

text \<open>
  The typed writes of \<open>Buffer\<close>: a range error when the value does not fit the field or a
  byte written is outside the buffer.
\<close>

definition Buffer_writeUInt8 :: "buffer \<Rightarrow> int \<Rightarrow> int \<Rightarrow> error + buffer" where
  "Buffer_writeUInt8 buf v off =
     (if v < 0 \<or> 255 < v then Inl OutOfBounds
      else if 0 \<le> off \<and> off + 1 \<le> int (length buf) then Inr (buf[nat off := word_of_int v])
      else Inl OutOfBounds)"

definition Buffer_writeUInt16LE :: "buffer \<Rightarrow> int \<Rightarrow> int \<Rightarrow> error + buffer" where
  "Buffer_writeUInt16LE buf v off =
     (if v < 0 \<or> 65535 < v then Inl OutOfBounds
      else if 0 \<le> off \<and> off + 2 \<le> int (length buf)
      then Inr (buf[nat off := word_of_int v, nat off + 1 := word_of_int (v div 256)])
      else Inl OutOfBounds)"

text \<open>
  \<open>buf.toString('ascii', start, end)\<close>: the range is clamped to the buffer (a negative
  start is 0) and each byte is decoded with its top bit cleared.
\<close>

definition Buffer_toString_ascii :: "buffer \<Rightarrow> int \<Rightarrow> int \<Rightarrow> jsstring" where
  "Buffer_toString_ascii buf start end =
     (let len = int (length buf);
          s = (if start \<le> 0 then 0 else start);
          e = (if len < end then len else end)
      in if len \<le> s \<or> e \<le> s then []
         else map (\<lambda>b. ucast (b AND 0x7F)) (take (nat (e - s)) (drop (nat s) buf)))"

text \<open>
  \<open>buf.toString('utf16le')\<close>: one code unit for every two bytes, low byte first; a last
  odd byte is dropped.
\<close>

fun utf16le :: "byte list \<Rightarrow> jsstring" where
  "utf16le (lo # hi # bs) = (ucast lo OR push_bit 8 (ucast hi)) # utf16le bs"
| "utf16le _ = []"

section \<open>The byte cursor: class \<open>BufferReader\<close>\<close>

text \<open>
  The reader is a buffer with a read position. Each method returns its value together with
  the reader after the call. The position is whatever \<open>seek\<close> and \<open>skip\<close> made it, so it
  is an integer that may be negative or past the end.
\<close>

record BufferReader =
  buffer :: buffer
  offset :: int

definition newBufferReader :: "buffer \<Rightarrow> BufferReader" where
  "newBufferReader buf = \<lparr>buffer = buf, offset = 0\<rparr>"

definition readUInt8 :: "BufferReader \<Rightarrow> error + (int \<times> BufferReader)" where
  "readUInt8 r =
     (case Buffer_readUInt8 (buffer r) (offset r) of
        Inl e \<Rightarrow> Inl e
      | Inr v \<Rightarrow> Inr (v, r\<lparr>offset := offset r + 1\<rparr>))"

definition readInt32LE :: "BufferReader \<Rightarrow> error + (int \<times> BufferReader)" where
  "readInt32LE r =
     (case Buffer_readInt32LE (buffer r) (offset r) of
        Inl e \<Rightarrow> Inl e
      | Inr v \<Rightarrow> Inr (v, r\<lparr>offset := offset r + 4\<rparr>))"

definition readBigInt64LE :: "BufferReader \<Rightarrow> error + (int \<times> BufferReader)" where
  "readBigInt64LE r =
     (case Buffer_readBigInt64LE (buffer r) (offset r) of
        Inl e \<Rightarrow> Inl e
      | Inr v \<Rightarrow> Inr (v, r\<lparr>offset := offset r + 8\<rparr>))"

definition readBoolean :: "BufferReader \<Rightarrow> error + (bool \<times> BufferReader)" where
  "readBoolean r =
     (case readUInt8 r of Inl e \<Rightarrow> Inl e | Inr (v, r') \<Rightarrow> Inr (v \<noteq> 0, r'))"

text \<open>
  \<open>readString\<close> and \<open>readBytes\<close> go through \<open>toString\<close> and \<open>slice\<close>, which clamp and do
  not raise: both always return, and both advance the position by the length asked for.
\<close>

definition readString :: "BufferReader \<Rightarrow> int \<Rightarrow> error + (jsstring \<times> BufferReader)" where
  "readString r len =
     Inr (Buffer_toString_ascii (buffer r) (offset r) (offset r + len),
          r\<lparr>offset := offset r + len\<rparr>)"

definition readBytes :: "BufferReader \<Rightarrow> int \<Rightarrow> error + (buffer \<times> BufferReader)" where
  "readBytes r len =
     Inr (Buffer_slice (buffer r) (offset r) (offset r + len),
          r\<lparr>offset := offset r + len\<rparr>)"

definition skip :: "BufferReader \<Rightarrow> int \<Rightarrow> BufferReader" where
  "skip r bytes = r\<lparr>offset := offset r + bytes\<rparr>"

definition seek :: "BufferReader \<Rightarrow> int \<Rightarrow> BufferReader" where
  "seek r position = r\<lparr>offset := position\<rparr>"

section \<open>The container parser\<close>

subsection \<open>\<open>reverseBytes\<close> and the format byte\<close>

text \<open>
  \<open>reverseBytes\<close> shifts the bits of its argument into the result, lowest first, in eight
  rounds. The result stays below 256, so the 32-bit arithmetic of the JavaScript bit
  operators never wraps and \<open>int\<close> computes the same.
\<close>

function reverseBytes_loop :: "nat \<Rightarrow> int \<Rightarrow> int \<Rightarrow> int" where
  "reverseBytes_loop i result byte =
     (if i < 8
      then reverseBytes_loop (i + 1) (push_bit 1 result OR (byte AND 1)) (drop_bit 1 byte)
      else result)"
  by pat_completeness auto
termination
  by (relation "measure (\<lambda>(i, result, byte). 8 - i)") auto

declare reverseBytes_loop.simps [simp del]

definition reverseBytes :: "int \<Rightarrow> int" where
  "reverseBytes byte = reverseBytes_loop 0 0 byte"

text \<open>Lines 83 to 87 of \<open>parseSaveFile\<close>: the format byte as it is interpreted.\<close>

definition resolveFormat :: "bool \<Rightarrow> int \<Rightarrow> int" where
  "resolveFormat bitBigEndian rawFormat =
     (let keepFormat = bitBigEndian \<or> ((rawFormat AND 0x1) \<noteq> 0 \<and> (rawFormat AND 0x80) = 0)
      in if \<not> keepFormat then reverseBytes rawFormat else rawFormat)"

subsection \<open>Entry headers\<close>

record GameFileHeader =
  fileFlags :: int
  compressedSize :: int
  uncompressedSize :: int
  dataOffset :: int
  id_h :: int
  name :: "jsstring option"

text \<open>
  \<open>readUnicodeString\<close> reads two bytes at a time until it reads two zero bytes. Past the
  end of the buffer \<open>readBytes\<close> returns fewer than two bytes, the test for the terminator
  never succeeds and the loop does not end: the function is partial, and \<open>None\<close> is the run
  that never returns.
\<close>

definition notTerminator :: "buffer \<Rightarrow> bool" where
  "notTerminator charBytes = (Buffer_get charBytes 0 \<noteq> Some 0 \<or> Buffer_get charBytes 1 \<noteq> Some 0)"

partial_function (option) readUnicodeString_loop ::
  "BufferReader \<Rightarrow> buffer \<Rightarrow> buffer \<Rightarrow> (error + (buffer \<times> BufferReader)) option" where
  "readUnicodeString_loop r charBytes bytes =
     (if notTerminator charBytes
      then (case readBytes r 2 of
              Inl e \<Rightarrow> Some (Inl e)
            | Inr (charBytes', r') \<Rightarrow> readUnicodeString_loop r' charBytes' (bytes @ charBytes))
      else Some (Inr (bytes, r)))"

declare readUnicodeString_loop.simps [code]

definition readUnicodeString ::
  "BufferReader \<Rightarrow> bool \<Rightarrow> (error + (jsstring \<times> BufferReader)) option" where
  "readUnicodeString r bigEndian =
     (case readBytes r 2 of
        Inl e \<Rightarrow> Some (Inl e)
      | Inr (charBytes, r') \<Rightarrow>
          (case readUnicodeString_loop r' charBytes [] of
             None \<Rightarrow> None
           | Some (Inl e) \<Rightarrow> Some (Inl e)
           | Some (Inr (bytes, r'')) \<Rightarrow>
               if length bytes = 0 then Some (Inr ([], r''))
               else if bigEndian then Some (Inl UnknownEncoding)
               else Some (Inr (utf16le bytes, r''))))"

text \<open>
  One round of the loop of \<open>readGameFileHeaders\<close>: the header of one entry. The fields
  after the sentinel are read in the order of the source; \<open>format\<close> decides which exist.
\<close>

definition readNameField ::
  "BufferReader \<Rightarrow> int \<Rightarrow> bool \<Rightarrow> bool \<Rightarrow> (error + (jsstring option \<times> BufferReader)) option" where
  "readNameField r format unicode bigEndian =
     (if (format AND (0x4 OR 0x8)) \<noteq> 0 then
        (case readInt32LE r of
           Inl e \<Rightarrow> Some (Inl e)
         | Inr (nameOffset, r1) \<Rightarrow>
             if unicode then
               (let currentOffset = offset r1 in
                case readUnicodeString (seek r1 nameOffset) bigEndian of
                  None \<Rightarrow> None
                | Some (Inl e) \<Rightarrow> Some (Inl e)
                | Some (Inr (nm, r2)) \<Rightarrow> Some (Inr (Some nm, seek r2 currentOffset)))
             else Some (Inr (Some (str ''JIS''), r1)))
      else Some (Inr (None, r)))"

definition readSizesAndOffset ::
  "BufferReader \<Rightarrow> int \<Rightarrow> error + ((int \<times> int \<times> int \<times> int) \<times> BufferReader)" where
  "readSizesAndOffset r format =
     ebind (readBigInt64LE r) (\<lambda>(compressedSize, r1).
     ebind (if (format AND 0x20) \<noteq> 0 then readBigInt64LE r1 else Inr (-1, r1))
       (\<lambda>(uncompressedSize, r2).
     ebind (if (format AND 0x10) \<noteq> 0 then readBigInt64LE r2 else readInt32LE r2)
       (\<lambda>(dataOffset, r3).
     ebind (if (format AND 0x2) \<noteq> 0 then readInt32LE r3 else Inr (-1, r3))
       (\<lambda>(ident, r4).
     Inr ((compressedSize, uncompressedSize, dataOffset, ident), r4)))))"

definition readGameFileHeader ::
  "BufferReader \<Rightarrow> int \<Rightarrow> bool \<Rightarrow> bool \<Rightarrow> (error + (GameFileHeader \<times> BufferReader)) option" where
  "readGameFileHeader r format unicode bigEndian =
     (case readUInt8 r of
        Inl e \<Rightarrow> Some (Inl e)
      | Inr (flags, r1) \<Rightarrow>
     (case readInt32LE (skip r1 3) of
        Inl e \<Rightarrow> Some (Inl e)
      | Inr (sentinel, r2) \<Rightarrow>
     if sentinel \<noteq> -1 then Some (Inl UnknownTableFormat) else
     (case readSizesAndOffset r2 format of
        Inl e \<Rightarrow> Some (Inl e)
      | Inr ((csize, usize, doff, ident), r3) \<Rightarrow>
     (case readNameField r3 format unicode bigEndian of
        None \<Rightarrow> None
      | Some (Inl e) \<Rightarrow> Some (Inl e)
      | Some (Inr (nm, r4)) \<Rightarrow>
     (case (if format = 0x4
            then ebind (readInt32LE r4) (\<lambda>(ident', r5).
                 ebind (readInt32LE r5) (\<lambda>(discarded, r6). Inr (ident', r6)))
            else Inr (ident, r4)) of
        Inl e \<Rightarrow> Some (Inl e)
      | Inr (ident'', r7) \<Rightarrow>
          Some (Inr (\<lparr>fileFlags = flags, compressedSize = csize, uncompressedSize = usize,
                       dataOffset = doff, id_h = ident'', name = nm\<rparr>, r7)))))))"

text \<open>
  \<open>readGameFileHeaders\<close>: the loop \<open>for (i = 0; i < fileCount; i++)\<close>, as a recursion on the
  number of rounds left; a \<open>fileCount\<close> below 1 gives no round.
\<close>

fun readGameFileHeaders_loop ::
  "nat \<Rightarrow> BufferReader \<Rightarrow> int \<Rightarrow> bool \<Rightarrow> bool \<Rightarrow> GameFileHeader list \<Rightarrow>
   (error + (GameFileHeader list \<times> BufferReader)) option" where
  "readGameFileHeaders_loop 0 r format unicode bigEndian headers = Some (Inr (headers, r))"
| "readGameFileHeaders_loop (Suc n) r format unicode bigEndian headers =
     (case readGameFileHeader r format unicode bigEndian of
        None \<Rightarrow> None
      | Some (Inl e) \<Rightarrow> Some (Inl e)
      | Some (Inr (h, r')) \<Rightarrow>
          readGameFileHeaders_loop n r' format unicode bigEndian (headers @ [h]))"

definition readGameFileHeaders ::
  "BufferReader \<Rightarrow> int \<Rightarrow> int \<Rightarrow> bool \<Rightarrow> bool \<Rightarrow>
   (error + (GameFileHeader list \<times> BufferReader)) option" where
  "readGameFileHeaders r fileCount format unicode bigEndian =
     readGameFileHeaders_loop (nat fileCount) r format unicode bigEndian []"

subsection \<open>Entries\<close>

record GameFile =
  header :: GameFileHeader
  data :: buffer

text \<open>
  \<open>Number(x)\<close> for a \<open>BigInt\<close> \<open>x\<close>: the double nearest to \<open>x\<close>, and of two doubles equally
  near the one with the even significand. An integer below \<open>2 ^ 53\<close> in magnitude is its
  own double; a larger one keeps its 53 leading bits, \<open>significandShift\<close> being the number
  of bits that are rounded away. The sum of two doubles is the double nearest to their exact
  sum, so it is \<open>Number\<close> of the sum when the two hold integers.
\<close>

function significandShift :: "int \<Rightarrow> nat" where
  "significandShift a = (if a < 2 ^ 53 then 0 else Suc (significandShift (a div 2)))"
  by pat_completeness auto
termination
  by (relation "measure nat") auto

declare significandShift.simps [simp del]

definition Number :: "int \<Rightarrow> int" where
  "Number x =
     (let a = \<bar>x\<bar>;
          e = significandShift a;
          q = a div 2 ^ e;
          r = a mod 2 ^ e;
          q' = (if 2 ^ e < 2 * r \<or> (2 * r = 2 ^ e \<and> odd q) then q + 1 else q)
      in sgn x * (q' * 2 ^ e))"

text \<open>
  \<open>readGameFiles\<close>: for each header, \<open>reader.seek(Number(header.dataOffset))\<close> and
  \<open>reader.readBytes(Number(header.compressedSize))\<close>. The two fields are 64-bit integers, so
  position and length can be doubles of \<open>2 ^ 53\<close> and more, and the sum
  \<open>this.offset + length\<close> inside \<open>readBytes\<close> is then a rounded sum; the body of
  \<open>readBytes\<close> is written here with that sum (\<open>readBytes\<close> itself never raises).
\<close>

fun readGameFiles_loop ::
  "BufferReader \<Rightarrow> GameFileHeader list \<Rightarrow> GameFile list \<Rightarrow> error + (GameFile list \<times> BufferReader)" where
  "readGameFiles_loop r [] gameFiles = Inr (gameFiles, r)"
| "readGameFiles_loop r (h # hs) gameFiles =
     (let r1 = seek r (Number (dataOffset h));
          len = Number (compressedSize h);
          end = Number (offset r1 + len);
          fileBytes = Buffer_slice (buffer r1) (offset r1) end;
          r' = r1\<lparr>offset := end\<rparr>
      in readGameFiles_loop r' hs (gameFiles @ [\<lparr>header = h, data = fileBytes\<rparr>]))"

definition readGameFiles ::
  "BufferReader \<Rightarrow> GameFileHeader list \<Rightarrow> int \<Rightarrow> error + (GameFile list \<times> BufferReader)" where
  "readGameFiles r gameFileHeaders format = readGameFiles_loop r gameFileHeaders []"

section \<open>The save manager: constants\<close>

definition CHECKSUM_LENGTH :: int where "CHECKSUM_LENGTH = 16"
definition HEADER_DATA_OFFSET :: int where "HEADER_DATA_OFFSET = 26221838"
definition HEADER_DATA_LENGTH :: int where "HEADER_DATA_LENGTH = 588"
definition SAVE_DATA_LENGTH :: int where "SAVE_DATA_LENGTH = 2621440"
definition SAVE_HEADERS_SECTION_OFFSET :: int where "SAVE_HEADERS_SECTION_OFFSET = 26215344"
definition SAVE_HEADERS_SECTION_LENGTH :: int where "SAVE_HEADERS_SECTION_LENGTH = 393216"
definition ACTIVE_SAVE_SLOT_OFFSET :: int where "ACTIVE_SAVE_SLOT_OFFSET = 26221828"
definition SAVE_IDENTIFIER :: jsstring where "SAVE_IDENTIFIER = str ''USER_DATA''"

section \<open>The slot extractor\<close>

subsection \<open>Strings: \<open>trim\<close>, \<open>startsWith\<close>, \<open>parseInt\<close>\<close>

text \<open>The white space and line terminators that \<open>trim\<close> and \<open>parseInt\<close> strip.\<close>

definition isStrWhiteSpaceChar :: "16 word \<Rightarrow> bool" where
  "isStrWhiteSpaceChar c =
     (c \<in> set [0x9, 0xA, 0xB, 0xC, 0xD, 0x20, 0xA0, 0x1680, 0x2028, 0x2029, 0x202F, 0x205F,
                0x3000, 0xFEFF]
      \<or> (0x2000 \<le> c \<and> c \<le> 0x200A))"

definition trim :: "jsstring \<Rightarrow> jsstring" where
  "trim s = rev (dropWhile isStrWhiteSpaceChar (rev (dropWhile isStrWhiteSpaceChar s)))"

definition startsWith :: "jsstring \<Rightarrow> jsstring \<Rightarrow> bool" where
  "startsWith s p = (take (length p) s = p)"

definition substring :: "jsstring \<Rightarrow> nat \<Rightarrow> jsstring" where
  "substring s n = drop n s"

text \<open>The value of a code unit as a digit: \<open>0-9\<close>, then \<open>a-z\<close> or \<open>A-Z\<close> for 10 to 35.\<close>

definition digitValue :: "16 word \<Rightarrow> int option" where
  "digitValue c =
     (if 0x30 \<le> c \<and> c \<le> 0x39 then Some (uint c - 0x30)
      else if 0x61 \<le> c \<and> c \<le> 0x7A then Some (uint c - 0x61 + 10)
      else if 0x41 \<le> c \<and> c \<le> 0x5A then Some (uint c - 0x41 + 10)
      else None)"

definition isRadixDigit :: "int \<Rightarrow> 16 word \<Rightarrow> bool" where
  "isRadixDigit radix c = (case digitValue c of None \<Rightarrow> False | Some d \<Rightarrow> d < radix)"

text \<open>
  \<open>parseInt(s)\<close> with no radix: leading white space, a sign, a \<open>0x\<close> or \<open>0X\<close> prefix that
  selects radix 16, then the longest run of digits; \<open>NaN\<close> (here \<open>None\<close>) when that run is
  empty. The value is the exact integer: JavaScript rounds it to a double, which keeps
  every comparison with 9 and is exact below \<open>2^53\<close>.
\<close>

definition parseInt :: "jsstring \<Rightarrow> int option" where
  "parseInt s =
     (let s1 = dropWhile isStrWhiteSpaceChar s;
          sign = (if s1 \<noteq> [] \<and> hd s1 = 0x2D then -1 else 1);
          s2 = (if s1 \<noteq> [] \<and> (hd s1 = 0x2B \<or> hd s1 = 0x2D) then tl s1 else s1);
          hex = (2 \<le> length s2 \<and> s2 ! 0 = 0x30 \<and> (s2 ! 1 = 0x78 \<or> s2 ! 1 = 0x58));
          radix = (if hex then 16 else 10);
          s3 = (if hex then drop 2 s2 else s2);
          z = takeWhile (isRadixDigit radix) s3
      in if z = [] then None
         else Some (sign * foldl (\<lambda>acc c. acc * radix +
                                     (case digitValue c of None \<Rightarrow> 0 | Some d \<Rightarrow> d)) 0 z))"

subsection \<open>\<open>extractSaveHeaderInfo\<close>\<close>

record SaveHeaderInfo =
  characterName :: jsstring
  characterLevel :: int
  secondsPlayed :: int

definition extractSaveHeaderInfo :: "buffer \<Rightarrow> error + SaveHeaderInfo" where
  "extractSaveHeaderInfo hd_data =
     (let reader = newBufferReader hd_data in
      ebind (readBytes reader 34) (\<lambda>(nameBytes, r1).
      let nm = trim (filter (\<lambda>c. c \<noteq> 0) (utf16le nameBytes)) in
      ebind (readInt32LE r1) (\<lambda>(level, r2).
      ebind (readInt32LE r2) (\<lambda>(seconds, r3).
      Inr \<lparr>characterName = (if nm = [] then str ''Empty Slot'' else nm),
           characterLevel = level, secondsPlayed = seconds\<rparr>))))"

subsection \<open>\<open>processSaves\<close>\<close>

record Save =
  index :: int
  active :: bool
  gameFile :: GameFile
  saveHeaderInfo :: SaveHeaderInfo
  headerData :: buffer
  saveDataChecksum :: buffer
  saveData :: buffer

text \<open>
  One round of the loop of \<open>processSaves\<close>: \<open>None\<close> is \<open>continue\<close>, the entry is skipped.
  When \<open>parseInt\<close> gives \<open>NaN\<close> the test \<open>index > 9\<close> is false and the entry is not skipped:
  the reader seeks to \<open>NaN\<close>, \<open>readBytes\<close> slices from \<open>NaN\<close> to \<open>NaN\<close>, which is the empty
  buffer, and \<open>extractSaveHeaderInfo\<close> of the empty buffer raises at its first \<open>readInt32LE\<close>.
\<close>

definition processSave :: "buffer \<Rightarrow> BufferReader \<Rightarrow> GameFile \<Rightarrow> error + (Save option \<times> BufferReader)" where
  "processSave buf reader gf =
     (case name (header gf) of
        None \<Rightarrow> Inr (None, reader)
      | Some nm \<Rightarrow>
          if nm = [] \<or> \<not> startsWith nm SAVE_IDENTIFIER then Inr (None, reader)
          else
            (case parseInt (substring nm (length SAVE_IDENTIFIER)) of
               None \<Rightarrow> Inl OutOfBounds
             | Some idx \<Rightarrow>
                 if idx > 9 then Inr (None, reader)
                 else
                   (let r1 = seek reader (HEADER_DATA_OFFSET + idx * HEADER_DATA_LENGTH);
                        act = (Buffer_get buf (ACTIVE_SAVE_SLOT_OFFSET + idx) = Some 1)
                    in ebind (readBytes r1 HEADER_DATA_LENGTH) (\<lambda>(hdata, r2).
                       ebind (extractSaveHeaderInfo hdata) (\<lambda>info.
                       Inr (Some \<lparr>index = idx, active = act, gameFile = gf,
                                  saveHeaderInfo = info, headerData = hdata,
                                  saveDataChecksum = Buffer_slice (data gf) 0 CHECKSUM_LENGTH,
                                  saveData = Buffer_sliceFrom (data gf) CHECKSUM_LENGTH\<rparr>,
                            r2))))))"

fun processSaves_loop :: "buffer \<Rightarrow> BufferReader \<Rightarrow> GameFile list \<Rightarrow> Save list \<Rightarrow> error + Save list" where
  "processSaves_loop buf reader [] saves = Inr saves"
| "processSaves_loop buf reader (gf # gfs) saves =
     (case processSave buf reader gf of
        Inl e \<Rightarrow> Inl e
      | Inr (None, reader') \<Rightarrow> processSaves_loop buf reader' gfs saves
      | Inr (Some save, reader') \<Rightarrow> processSaves_loop buf reader' gfs (saves @ [save]))"

text \<open>
  \<open>saves.sort((a, b) => a.index - b.index)\<close>: the sort of JavaScript arrays is stable, as
  is \<open>sort_key\<close>.
\<close>

definition processSaves :: "buffer \<Rightarrow> GameFile list \<Rightarrow> error + Save list" where
  "processSaves buf gameFiles =
     (case processSaves_loop buf (newBufferReader buf) gameFiles [] of
        Inl e \<Rightarrow> Inl e
      | Inr saves \<Rightarrow> Inr (sort_key index saves))"

subsection \<open>\<open>parseSaveFile\<close>\<close>

record SaveFile =
  bigEndian :: bool
  bitBigEndian :: bool
  fileCount :: int
  headerSize :: int
  version :: jsstring
  fileHeaderSize :: int
  unicode :: bool
  rawFormat :: int
  format :: int
  extended :: int
  gameFileHeaders :: "GameFileHeader list"
  gameFiles :: "GameFile list"
  saves :: "Save list"
  buffer_sf :: buffer

text \<open>
  The fixed part of the archive header, read field by field in the order of the source.
\<close>

record ArchiveHeader =
  ah_bigEndian :: bool
  ah_bitBigEndian :: bool
  ah_fileCount :: int
  ah_headerSize :: int
  ah_version :: jsstring
  ah_fileHeaderSize :: int
  ah_unicode :: bool
  ah_rawFormat :: int
  ah_format :: int
  ah_extended :: int

definition readArchiveHeader :: "BufferReader \<Rightarrow> error + (ArchiveHeader \<times> BufferReader)" where
  "readArchiveHeader reader =
     ebind (readString reader 4) (\<lambda>(magic, r1).
     if magic \<noteq> str ''BND4'' then Inl BadMagic else
     ebind (readBoolean (skip r1 5)) (\<lambda>(be, r2).
     ebind (readBoolean r2) (\<lambda>(b, r3).
     let bbe = \<not> b in
     ebind (readInt32LE (skip r3 1)) (\<lambda>(fc, r4).
     ebind (readBigInt64LE r4) (\<lambda>(hs, r5).
     ebind (readString r5 8) (\<lambda>(ver, r6).
     ebind (readBigInt64LE r6) (\<lambda>(fhs, r7).
     ebind (readBoolean (skip r7 8)) (\<lambda>(uni, r8).
     ebind (readUInt8 r8) (\<lambda>(raw, r9).
     let fmt = resolveFormat bbe raw in
     ebind (readUInt8 r9) (\<lambda>(ext, r10).
     Inr (\<lparr>ah_bigEndian = be, ah_bitBigEndian = bbe, ah_fileCount = fc, ah_headerSize = hs,
           ah_version = ver, ah_fileHeaderSize = fhs, ah_unicode = uni, ah_rawFormat = raw,
           ah_format = fmt, ah_extended = ext\<rparr>, skip r10 13)))))))))))"

definition parseSaveFile :: "buffer \<Rightarrow> (error + SaveFile) option" where
  "parseSaveFile buf =
     (case readArchiveHeader (newBufferReader buf) of
        Inl e \<Rightarrow> Some (Inl e)
      | Inr (ah, r1) \<Rightarrow>
     (case readGameFileHeaders r1 (ah_fileCount ah) (ah_format ah) (ah_unicode ah) (ah_bigEndian ah) of
        None \<Rightarrow> None
      | Some (Inl e) \<Rightarrow> Some (Inl e)
      | Some (Inr (hs, r2)) \<Rightarrow>
     (case readGameFiles r2 hs (ah_format ah) of
        Inl e \<Rightarrow> Some (Inl e)
      | Inr (gfs, r3) \<Rightarrow>
     (case processSaves buf gfs of
        Inl e \<Rightarrow> Some (Inl e)
      | Inr svs \<Rightarrow>
          Some (Inr \<lparr>bigEndian = ah_bigEndian ah, bitBigEndian = ah_bitBigEndian ah,
                     fileCount = ah_fileCount ah, headerSize = ah_headerSize ah,
                     version = ah_version ah, fileHeaderSize = ah_fileHeaderSize ah,
                     unicode = ah_unicode ah, rawFormat = ah_rawFormat ah,
                     format = ah_format ah, extended = ah_extended ah,
                     gameFileHeaders = hs, gameFiles = gfs, saves = svs,
                     buffer_sf = buf\<rparr>)))))"

section \<open>Transfer: \<open>copySave\<close>\<close>

text \<open>
  The digest of Node's \<open>crypto\<close> module is not part of the repository: MD5 is the parameter
  \<open>md5\<close> of every function that hashes. The buffer returned is the copy that \<open>copySave\<close>
  made and wrote into; the buffer of the target is not changed.
\<close>

definition copySave :: "(buffer \<Rightarrow> buffer) \<Rightarrow> Save \<Rightarrow> SaveFile \<Rightarrow> int \<Rightarrow> error + buffer" where
  "copySave md5 sourceSave targetSaveFile targetSlotIndex =
     (let updatedBuffer = buffer_sf targetSaveFile in
      case find (\<lambda>save. index save = targetSlotIndex) (saves targetSaveFile) of
        None \<Rightarrow> Inl TargetSlotNotFound
      | Some targetSave \<Rightarrow>
          (let targetHeader = header (gameFile targetSave);
               sourceDataChecksum = saveDataChecksum sourceSave;
               sourceSaveData = saveData sourceSave;
               sourceHeaderData = headerData sourceSave
           in
           ebind (Buffer_copy sourceDataChecksum updatedBuffer (dataOffset targetHeader)) (\<lambda>b1.
           ebind (Buffer_copy sourceSaveData b1 (dataOffset targetHeader + CHECKSUM_LENGTH)) (\<lambda>b2.
           ebind (Buffer_copy sourceHeaderData b2
                    (HEADER_DATA_OFFSET + targetSlotIndex * HEADER_DATA_LENGTH)) (\<lambda>b3.
           let b4 = Buffer_set b3 (ACTIVE_SAVE_SLOT_OFFSET + targetSlotIndex) 1;
               md5Hash = md5 sourceSaveData
           in
           ebind (Buffer_copy md5Hash b4 (dataOffset targetHeader)) (\<lambda>b5.
           let saveHeaderSectionData =
                 Buffer_slice b5 SAVE_HEADERS_SECTION_OFFSET
                   (SAVE_HEADERS_SECTION_OFFSET + SAVE_HEADERS_SECTION_LENGTH);
               headersMd5 = md5 saveHeaderSectionData
           in Buffer_copy headersMd5 b5 (SAVE_HEADERS_SECTION_OFFSET - CHECKSUM_LENGTH)))))))"

section \<open>The checksum engine: \<open>recalculateChecksums\<close>\<close>

text \<open>
  The loop over the ten slots, with its two running positions. The function writes into
  the buffer it is given; the model returns the buffer after the writes.
\<close>

function recalculateChecksums_loop ::
  "(buffer \<Rightarrow> buffer) \<Rightarrow> nat \<Rightarrow> int \<Rightarrow> int \<Rightarrow> buffer \<Rightarrow> error + buffer" where
  "recalculateChecksums_loop md5 i slotDataIndex checksumIndex buf =
     (if i < 10 then
        (let slotLength = 2621439;
             checksumLength = 15;
             slotData = Buffer_slice buf slotDataIndex (slotDataIndex + slotLength + 1);
             newChecksum = md5 slotData;
             currentChecksum = Buffer_slice buf checksumIndex (checksumIndex + checksumLength + 1)
         in case (if newChecksum \<noteq> Buffer_slice currentChecksum 0 (int (length newChecksum))
                  then Buffer_copy newChecksum buf checksumIndex
                  else Inr buf) of
              Inl e \<Rightarrow> Inl e
            | Inr buf' \<Rightarrow>
                recalculateChecksums_loop md5 (i + 1) (slotDataIndex + 2621456)
                  (checksumIndex + 2621456) buf')
      else Inr buf)"
  by pat_completeness auto
termination
  by (relation "measure (\<lambda>(md5, i, slotDataIndex, checksumIndex, buf). 10 - i)") auto

declare recalculateChecksums_loop.simps [simp del]

definition recalculateChecksums :: "(buffer \<Rightarrow> buffer) \<Rightarrow> buffer \<Rightarrow> error + buffer" where
  "recalculateChecksums md5 buf =
     ebind (recalculateChecksums_loop md5 0 0x00000310 0x00000300 buf) (\<lambda>buf1.
     let generalDataStart = 0x019003B0;
         generalDataEnd = 0x019603AF;
         generalChecksumStart = 0x019003A0;
         generalData = Buffer_slice buf1 generalDataStart (generalDataEnd + 1);
         newGeneralChecksum = md5 generalData
     in Buffer_copy newGeneralChecksum buf1 generalChecksumStart)"

section \<open>The stats locator and codec\<close>

subsection \<open>The resource tables\<close>

definition hpTable :: "(int \<times> int) list" where
  "hpTable = [
    (1, 300), (2, 304), (3, 312), (4, 322), (5, 334), (6, 347), (7, 362), (8, 378), (9, 396), (10, 414),
    (11, 434), (12, 455), (13, 476), (14, 499), (15, 522), (16, 547), (17, 572), (18, 598), (19, 624), (20, 652),
    (21, 680), (22, 709), (23, 738), (24, 769), (25, 800), (26, 833), (27, 870), (28, 910), (29, 951), (30, 994),
    (31, 1037), (32, 1081), (33, 1125), (34, 1170), (35, 1216), (36, 1262), (37, 1308), (38, 1355), (39, 1402), (40, 1450),
    (41, 1476), (42, 1503), (43, 1529), (44, 1555), (45, 1581), (46, 1606), (47, 1631), (48, 1656), (49, 1680), (50, 1704),
    (51, 1727), (52, 1750), (53, 1772), (54, 1793), (55, 1814), (56, 1834), (57, 1853), (58, 1871), (59, 1887), (60, 1900),
    (61, 1906), (62, 1912), (63, 1918), (64, 1924), (65, 1930), (66, 1936), (67, 1942), (68, 1948), (69, 1954), (70, 1959),
    (71, 1965), (72, 1971), (73, 1977), (74, 1982), (75, 1988), (76, 1993), (77, 1999), (78, 2004), (79, 2010), (80, 2015),
    (81, 2020), (82, 2026), (83, 2031), (84, 2036), (85, 2041), (86, 2046), (87, 2051), (88, 2056), (89, 2060), (90, 2065),
    (91, 2070), (92, 2074), (93, 2078), (94, 2082), (95, 2086), (96, 2090), (97, 2094), (98, 2097), (99, 2100)]"

definition fpTable :: "(int \<times> int) list" where
  "fpTable = [
    (1, 40), (2, 43), (3, 46), (4, 49), (5, 52), (6, 55), (7, 58), (8, 62), (9, 65), (10, 68),
    (11, 71), (12, 74), (13, 77), (14, 81), (15, 84), (16, 87), (17, 90), (18, 93), (19, 96), (20, 100),
    (21, 106), (22, 112), (23, 118), (24, 124), (25, 130), (26, 136), (27, 142), (28, 148), (29, 154), (30, 160),
    (31, 166), (32, 172), (33, 178), (34, 184), (35, 190), (36, 196), (37, 202), (38, 208), (39, 214), (40, 220),
    (41, 226), (42, 232), (43, 238), (44, 244), (45, 250), (46, 256), (47, 262), (48, 268), (49, 274), (50, 280),
    (51, 288), (52, 297), (53, 305), (54, 313), (55, 321), (56, 328), (57, 335), (58, 341), (59, 346), (60, 350),
    (61, 352), (62, 355), (63, 357), (64, 360), (65, 362), (66, 365), (67, 367), (68, 370), (69, 373), (70, 375),
    (71, 378), (72, 380), (73, 383), (74, 385), (75, 388), (76, 391), (77, 393), (78, 396), (79, 398), (80, 401),
    (81, 403), (82, 406), (83, 408), (84, 411), (85, 414), (86, 416), (87, 419), (88, 421), (89, 424), (90, 426),
    (91, 429), (92, 432), (93, 434), (94, 437), (95, 439), (96, 442), (97, 444), (98, 447), (99, 450)]"

definition staminaTable :: "(int \<times> int) list" where
  "staminaTable = [
    (1, 80), (2, 81), (3, 82), (4, 84), (5, 85), (6, 87), (7, 88), (8, 90), (9, 91), (10, 92),
    (11, 94), (12, 95), (13, 97), (14, 98), (15, 100), (16, 101), (17, 103), (18, 105), (19, 106), (20, 108),
    (21, 110), (22, 111), (23, 113), (24, 115), (25, 116), (26, 118), (27, 120), (28, 121), (29, 123), (30, 125),
    (31, 126), (32, 128), (33, 129), (34, 131), (35, 132), (36, 134), (37, 135), (38, 137), (39, 138), (40, 140),
    (41, 141), (42, 143), (43, 144), (44, 146), (45, 147), (46, 149), (47, 150), (48, 152), (49, 153), (50, 155),
    (51, 155), (52, 155), (53, 155), (54, 156), (55, 156), (56, 156), (57, 157), (58, 157), (59, 157), (60, 158),
    (61, 158), (62, 158), (63, 158), (64, 159), (65, 159), (66, 159), (67, 160), (68, 160), (69, 160), (70, 161),
    (71, 161), (72, 161), (73, 162), (74, 162), (75, 162), (76, 162), (77, 163), (78, 163), (79, 163), (80, 164),
    (81, 164), (82, 164), (83, 165), (84, 165), (85, 165), (86, 166), (87, 166), (88, 166), (89, 166), (90, 167),
    (91, 167), (92, 167), (93, 168), (94, 168), (95, 168), (96, 169), (97, 169), (98, 169), (99, 170)]"

text \<open>
  \<open>table[k] || table[99]\<close>: the entry at \<open>k\<close> unless it is missing (\<open>undefined\<close>) or 0,
  and the entry at 99 then. The result is an option because a lookup is.
\<close>

definition js_or :: "int option \<Rightarrow> int option \<Rightarrow> int option" where
  "js_or a b = (case a of None \<Rightarrow> b | Some x \<Rightarrow> if x = 0 then b else Some x)"

definition calculateHP :: "int \<Rightarrow> int option" where
  "calculateHP v = js_or (map_of hpTable (min v 99)) (map_of hpTable 99)"

definition calculateFP :: "int \<Rightarrow> int option" where
  "calculateFP v = js_or (map_of fpTable (min v 99)) (map_of fpTable 99)"

definition calculateStamina :: "int \<Rightarrow> int option" where
  "calculateStamina v = js_or (map_of staminaTable (min v 99)) (map_of staminaTable 99)"

subsection \<open>\<open>getCharacterStats\<close>\<close>

record StatValues =
  vigor :: int
  mind :: int
  endurance :: int
  strength :: int
  dexterity :: int
  intelligence :: int
  faith :: int
  arcane :: int

record CharacterStats =
  slotIndex :: int
  level :: int
  statsOffset :: int
  stats :: StatValues
  hp :: "int list"
  stamina :: "int list"
  fp :: "int list"
  hpOffsets :: "int list"
  staminaOffsets :: "int list"
  fpOffsets :: "int list"

definition slotOffsets :: "int list" where
  "slotOffsets = [
     0x00000310, 0x00280320, 0x00500330, 0x00780340, 0x00A00350,
     0x00C80360, 0x00F00370, 0x01180380, 0x01400390, 0x016803A0]"

definition slotLengths :: "int list" where
  "slotLengths = [
     0x0028030F - 0x00000310 + 1, 0x0050031F - 0x00280320 + 1, 0x0078032F - 0x00500330 + 1,
     0x00A0033F - 0x00780340 + 1, 0x00C8034F - 0x00A00350 + 1, 0x00F0035F - 0x00C80360 + 1,
     0x0118036F - 0x00F00370 + 1, 0x0140037F - 0x01180380 + 1, 0x0168038F - 0x01400390 + 1,
     0x0190039F - 0x016803A0 + 1]"

text \<open>\<open>array[i]\<close>: \<open>undefined\<close> outside the array.\<close>

definition array_get :: "'a list \<Rightarrow> int \<Rightarrow> 'a option" where
  "array_get xs i = (if 0 \<le> i \<and> i < int (length xs) then Some (xs ! nat i) else None)"

fun readAll :: "(int \<Rightarrow> error + int) \<Rightarrow> int list \<Rightarrow> error + int list" where
  "readAll rd [] = Inr []"
| "readAll rd (off # offs) =
     (case rd off of
        Inl e \<Rightarrow> Inl e
      | Inr v \<Rightarrow> (case readAll rd offs of Inl e \<Rightarrow> Inl e | Inr vs \<Rightarrow> Inr (v # vs)))"

text \<open>
  The body of the \<open>try\<close> in the scan: the eight candidate attributes at stride 4 and the
  16-bit field at \<open>i + 44\<close>.
\<close>

definition readPotentialStats :: "buffer \<Rightarrow> int \<Rightarrow> error + (int list \<times> int)" where
  "readPotentialStats slotData i =
     ebind (readAll (Buffer_readUInt8 slotData)
              [i, i + 4, i + 8, i + 12, i + 16, i + 20, i + 24, i + 28]) (\<lambda>potentialStats.
     ebind (Buffer_readUInt16LE slotData (i + 44)) (\<lambda>levelAtOffset.
     Inr (potentialStats, levelAtOffset)))"

text \<open>
  The scan of \<open>getCharacterStats\<close> (the stats locator): \<open>None\<close> is \<open>statsFound = false\<close>
  at the end of the loop, \<open>Some (i, stats)\<close> is the \<open>break\<close> at offset \<open>i\<close>. A read that
  raises is caught inside the loop and the scan goes on with the next offset.
\<close>

function findStats_loop :: "buffer \<Rightarrow> int \<Rightarrow> int \<Rightarrow> (int \<times> int list) option" where
  "findStats_loop slotData lvl i =
     (if i < min 120000 (int (length slotData) - 50) then
        (case readPotentialStats slotData i of
           Inl e \<Rightarrow> findStats_loop slotData lvl (i + 1)
         | Inr (potentialStats, levelAtOffset) \<Rightarrow>
             if foldl (+) 0 potentialStats = lvl + 79 \<and> levelAtOffset = lvl
             then Some (i, potentialStats)
             else findStats_loop slotData lvl (i + 1))
      else None)"
  by pat_completeness auto
termination
  by (relation "measure (\<lambda>(slotData, lvl, i). nat (120000 - i))") auto

declare findStats_loop.simps [simp del]

definition findStats :: "buffer \<Rightarrow> int \<Rightarrow> (int \<times> int list) option" where
  "findStats slotData lvl = findStats_loop slotData lvl 0"

definition toStatValues :: "int list \<Rightarrow> StatValues" where
  "toStatValues s =
     \<lparr>vigor = s ! 0, mind = s ! 1, endurance = s ! 2, strength = s ! 3,
      dexterity = s ! 4, intelligence = s ! 5, faith = s ! 6, arcane = s ! 7\<rparr>"

text \<open>
  The second half of \<open>getCharacterStats\<close>, after the scan found the block at offset
  \<open>statsOff\<close> of the slot data: the three resource triples are read at negative offsets
  from the block.
\<close>

definition statsRecord ::
  "buffer \<Rightarrow> int \<Rightarrow> int \<Rightarrow> int \<Rightarrow> int \<Rightarrow> int list \<Rightarrow> error + CharacterStats" where
  "statsRecord slotData slotIdx lvl slotOffset statsOff sts =
     ebind (readAll (Buffer_readUInt16LE slotData)
              [statsOff - 44, statsOff - 40, statsOff - 36]) (\<lambda>hpValues.
     ebind (readAll (Buffer_readUInt16LE slotData)
              [statsOff - 16, statsOff - 12, statsOff - 8]) (\<lambda>staminaValues.
     ebind (readAll (Buffer_readUInt16LE slotData)
              [statsOff - 32, statsOff - 28, statsOff - 24]) (\<lambda>fpValues.
     Inr \<lparr>slotIndex = slotIdx, level = lvl,
          statsOffset = slotOffset + statsOff,
          stats = toStatValues sts,
          hp = hpValues, stamina = staminaValues, fp = fpValues,
          hpOffsets = [slotOffset + statsOff - 44, slotOffset + statsOff - 40,
                       slotOffset + statsOff - 36],
          staminaOffsets = [slotOffset + statsOff - 16, slotOffset + statsOff - 12,
                            slotOffset + statsOff - 8],
          fpOffsets = [slotOffset + statsOff - 32, slotOffset + statsOff - 28,
                       slotOffset + statsOff - 24]\<rparr>)))"

text \<open>
  \<open>getCharacterStats\<close>: \<open>None\<close> is the \<open>null\<close> it returns, also from its outer \<open>catch\<close>,
  which turns every exception raised outside the scan into \<open>null\<close>. For a slot index
  outside the two tables, \<open>slice(undefined, NaN)\<close> is the empty buffer, the scan has no
  round and the result is \<open>null\<close>.
\<close>

definition getCharacterStats :: "buffer \<Rightarrow> int \<Rightarrow> CharacterStats option" where
  "getCharacterStats buf slotIdx =
     (let baseLevelOffset = 26221872;
          levelOffset = baseLevelOffset + slotIdx * 588
      in
      if levelOffset + 2 > int (length buf) then None
      else
        (case Buffer_readUInt16LE buf levelOffset of
           Inl e \<Rightarrow> None
         | Inr lvl \<Rightarrow>
             (case (array_get slotOffsets slotIdx, array_get slotLengths slotIdx) of
                (Some slotOffset, Some slotLength) \<Rightarrow>
                  (let slotData = Buffer_slice buf slotOffset (slotOffset + slotLength) in
                   case findStats slotData lvl of
                     None \<Rightarrow> None
                   | Some (statsOff, sts) \<Rightarrow>
                       (case statsRecord slotData slotIdx lvl slotOffset statsOff sts of
                          Inl e \<Rightarrow> None
                        | Inr cs \<Rightarrow> Some cs))
              | _ \<Rightarrow> None)))"

subsection \<open>\<open>setCharacterStats\<close>\<close>

record Options =
  godMode :: bool
  customAttributes :: bool

definition statValues :: "StatValues \<Rightarrow> int list" where
  "statValues ns = [vigor ns, mind ns, endurance ns, strength ns, dexterity ns,
                    intelligence ns, faith ns, arcane ns]"

text \<open>\<open>offsets.forEach(offset => buffer.writeUInt16LE(value, offset))\<close>.\<close>

fun writeAllUInt16LE :: "buffer \<Rightarrow> int \<Rightarrow> int list \<Rightarrow> error + buffer" where
  "writeAllUInt16LE buf v [] = Inr buf"
| "writeAllUInt16LE buf v (off # offs) =
     (case Buffer_writeUInt16LE buf v off of
        Inl e \<Rightarrow> Inl e
      | Inr buf' \<Rightarrow> writeAllUInt16LE buf' v offs)"

text \<open>
  The \<open>forEach\<close> over the eight attribute names: attribute number \<open>k\<close> goes to
  \<open>slotOffset + (statsOffset - slotOffset + k * 4)\<close>.
\<close>

fun writeStats :: "buffer \<Rightarrow> int \<Rightarrow> int \<Rightarrow> int \<Rightarrow> int list \<Rightarrow> error + buffer" where
  "writeStats buf statsOff slotOffset k [] = Inr buf"
| "writeStats buf statsOff slotOffset k (v # vs) =
     (let statOffset = statsOff - slotOffset + k * 4 in
      case Buffer_writeUInt8 buf v (slotOffset + statOffset) of
        Inl e \<Rightarrow> Inl e
      | Inr buf' \<Rightarrow> writeStats buf' statsOff slotOffset (k + 1) vs)"

text \<open>
  A resource value that a lookup left \<open>undefined\<close> would be written as 0 by
  \<open>writeUInt16LE\<close>, whose range check lets \<open>NaN\<close> through.
\<close>

definition resourceValue :: "int option \<Rightarrow> int" where
  "resourceValue v = (case v of None \<Rightarrow> 0 | Some x \<Rightarrow> x)"

definition writeResources :: "buffer \<Rightarrow> CharacterStats \<Rightarrow> StatValues \<Rightarrow> Options \<Rightarrow> error + buffer" where
  "writeResources buf currentStats newStats options =
     (if godMode options then
        ebind (writeAllUInt16LE buf 60000 (hpOffsets currentStats)) (\<lambda>b1.
        ebind (writeAllUInt16LE b1 60000 (fpOffsets currentStats)) (\<lambda>b2.
        writeAllUInt16LE b2 60000 (staminaOffsets currentStats)))
      else if customAttributes options then
        (let hpValue = resourceValue (calculateHP (vigor newStats));
             fpValue = resourceValue (calculateFP (mind newStats));
             staminaValue = resourceValue (calculateStamina (endurance newStats))
         in
         ebind (writeAllUInt16LE buf hpValue (hpOffsets currentStats)) (\<lambda>b1.
         ebind (writeAllUInt16LE b1 fpValue (fpOffsets currentStats)) (\<lambda>b2.
         writeAllUInt16LE b2 staminaValue (staminaOffsets currentStats))))
      else Inr buf)"

text \<open>
  \<open>setCharacterStats\<close>: \<open>newStats\<close> is the object of the eight attributes, integers as the
  user interface makes them with \<open>parseInt\<close>, and \<open>Object.values(newStats)\<close> are summed.
  \<open>Buffer.from(buffer)\<close> is a copy of the buffer; the writes go to the copy, which is the
  buffer that the model hands from write to write. An exception raised inside the \<open>try\<close>
  is thrown again as "Failed to set character stats: ..."; the model keeps the exception
  that was raised.
\<close>

definition setCharacterStats ::
  "(buffer \<Rightarrow> buffer) \<Rightarrow> buffer \<Rightarrow> int \<Rightarrow> StatValues \<Rightarrow> Options \<Rightarrow> error + buffer" where
  "setCharacterStats md5 buf slotIdx newStats options =
     (case getCharacterStats buf slotIdx of
        None \<Rightarrow> Inl StatsNotFound
      | Some currentStats \<Rightarrow>
          (let statSum = foldl (+) 0 (statValues newStats);
               newLevel = statSum - 79;
               modifiedBuffer = buf;
               slotOffset = 0x310 + slotIdx * 2621456
           in
           ebind (writeStats modifiedBuffer (statsOffset currentStats) slotOffset 0
                    (statValues newStats)) (\<lambda>b1.
           ebind (Buffer_writeUInt16LE b1 newLevel (statsOffset currentStats + 44)) (\<lambda>b2.
           let baseLevelOffset = 26221872;
               levelOffset = baseLevelOffset + slotIdx * 588
           in
           ebind (Buffer_writeUInt16LE b2 newLevel levelOffset) (\<lambda>b3.
           ebind (writeResources b3 currentStats newStats options) (\<lambda>b4.
           recalculateChecksums md5 b4))))))"

section \<open>Sample data\<close>

text \<open>
  The 64 bytes of an archive header as the game writes it (magic \<open>BND4\<close>, little endian,
  bit-order flag byte 1, version \<open>00000001\<close>, unicode names), for a given number of entries
  and a given raw format byte. The theorems below run the parser on it.
\<close>

definition sampleHeader :: "byte \<Rightarrow> byte \<Rightarrow> buffer" where
  "sampleHeader entries raw =
     [0x42, 0x4E, 0x44, 0x34, 0, 0, 0, 0, 0, 0, 1, 0, entries, 0, 0, 0,
      0x40, 0, 0, 0, 0, 0, 0, 0, 0x30, 0x30, 0x30, 0x30, 0x30, 0x30, 0x30, 0x31,
      0x20, 0, 0, 0, 0, 0, 0, 0, 0, 0x03, 0, 0, 0, 0, 0, 0,
      1, raw, 0, 0, 0, 0, 0, 0, 0, 0, 0, 0, 0, 0, 0, 0]"

text \<open>
  The header of one entry in format \<open>0x2E\<close>, for an archive whose entry headers start at
  byte 64: flag byte 5, the field \<open>-1\<close>, compressed size 2, uncompressed size 3, data
  offset 64, id 7 and the offset 100 of the name, followed at byte 100 by the name \<open>A\<close> and
  its terminator.
\<close>

definition sampleEntryHeader :: buffer where
  "sampleEntryHeader =
     [5, 0, 0, 0, 0xFF, 0xFF, 0xFF, 0xFF, 2, 0, 0, 0, 0, 0, 0, 0,
      3, 0, 0, 0, 0, 0, 0, 0, 64, 0, 0, 0, 7, 0, 0, 0,
      100, 0, 0, 0, 0x41, 0, 0, 0]"

text \<open>
  The same for format 4 (raw byte \<open>0x20\<close>): flag byte 5, the field \<open>-1\<close>, compressed size
  2, data offset 64, the offset 96 of the name, then the id 9 and a 32-bit field that is
  skipped, followed at byte 96 by the name \<open>B\<close> and its terminator.
\<close>

definition sampleEntryHeader4 :: buffer where
  "sampleEntryHeader4 =
     [5, 0, 0, 0, 0xFF, 0xFF, 0xFF, 0xFF, 2, 0, 0, 0, 0, 0, 0, 0,
      64, 0, 0, 0, 96, 0, 0, 0, 9, 0, 0, 0, 0, 0, 0, 0,
      0x42, 0, 0, 0]"

text \<open>
  The synthetic payload of the specification's test of the locator: the attributes
  \<open>[10, 10, 10, 10, 10, 10, 10, 9]\<close> (sum 79), each followed by three padding bytes, at
  offset 44 of a payload that is zero everywhere else, for header level 0.
\<close>

definition sampleStatsBlock :: buffer where
  "sampleStatsBlock =
     [10, 0, 0, 0, 10, 0, 0, 0, 10, 0, 0, 0, 10, 0, 0, 0,
      10, 0, 0, 0, 10, 0, 0, 0, 10, 0, 0, 0, 9, 0, 0, 0]"

definition samplePayload :: buffer where
  "samplePayload = replicate 44 0 @ sampleStatsBlock @ replicate 100 0"

text \<open>
  A stand-in for the digest where a theorem is run on concrete data: sixteen bytes, each
  the sum of the bytes hashed. The theorems themselves hold for every function that
  returns sixteen bytes, MD5 among them.
\<close>

definition sampleDigest :: "buffer \<Rightarrow> buffer" where
  "sampleDigest xs = replicate 16 (sum_list xs)"

text \<open>
  A buffer of the size of a save file (26608560 bytes) that is zero except for the
  synthetic payload above at the start of the data of slot 0: the header level of slot 0
  is 0 and its stats block is at offset 44 of the slot data, byte 828 of the file.
\<close>

definition sampleSaveBuffer :: buffer where
  "sampleSaveBuffer = replicate 784 0 @ samplePayload @ replicate 26607600 0"

text \<open>
  The same buffer with the third byte of the four-byte level of slot 0 in the header
  table set to 1: the field holds 65536, and its low two bytes, which are what
  \<open>getCharacterStats\<close> reads, hold 0.
\<close>

definition sampleHighLevelBuffer :: buffer where
  "sampleHighLevelBuffer = sampleSaveBuffer[26221874 := 1]"

text \<open>
  A buffer of the size of a save file whose eleven checksum fields are zero, while the
  data of slot 0 starts with the bytes 1, 2, 3 and the save-headers section with the byte
  7 (all else is zero). Under the sample digest the checksums of slot 0 and of the section
  are stale and those of slots 1 to 9 are up to date.
\<close>

definition sampleStaleBuffer :: buffer where
  "sampleStaleBuffer =
     replicate 784 0 @ [1, 2, 3] @ replicate 26214557 0 @ [7] @ replicate 393215 0"

text \<open>
  A parsed container of the size of a save file whose buffer is zero throughout, with
  the two empty slots 0 and 1 at their windows, and a source slot: a character named
  \<open>A\<close> of level 25 with one hour played.
\<close>

definition sampleEmptySlot :: "int \<Rightarrow> Save" where
  "sampleEmptySlot i =
     \<lparr>index = i, active = False,
      gameFile = \<lparr>header = \<lparr>fileFlags = 0x40, compressedSize = 2621456, uncompressedSize = -1,
                            dataOffset = 0x300 + i * 2621456, id_h = -1,
                            name = Some (str ''USER_DATA00'' @ [0x30 + word_of_int i])\<rparr>,
                  data = replicate 2621456 0\<rparr>,
      saveHeaderInfo = \<lparr>characterName = str ''Empty Slot'', characterLevel = 0,
                        secondsPlayed = 0\<rparr>,
      headerData = replicate 588 0,
      saveDataChecksum = replicate 16 0,
      saveData = replicate 2621440 0\<rparr>"

definition sampleTarget :: SaveFile where
  "sampleTarget =
     \<lparr>bigEndian = False, bitBigEndian = False, fileCount = 2, headerSize = 64,
      version = str ''00000001'', fileHeaderSize = 32, unicode = True, rawFormat = 0x74,
      format = 0x2E, extended = 0,
      gameFileHeaders = [header (gameFile (sampleEmptySlot 0)), header (gameFile (sampleEmptySlot 1))],
      gameFiles = [gameFile (sampleEmptySlot 0), gameFile (sampleEmptySlot 1)],
      saves = [sampleEmptySlot 0, sampleEmptySlot 1],
      buffer_sf = replicate 26608560 0\<rparr>"

definition sampleSummary :: buffer where
  "sampleSummary = [0x41, 0] @ replicate 32 0 @ [25, 0, 0, 0, 0x10, 0x0E, 0, 0] @ replicate 546 0"

definition sampleSource :: Save where
  "sampleSource =
     \<lparr>index = 3, active = True,
      gameFile = \<lparr>header = \<lparr>fileFlags = 0x40, compressedSize = 2621456, uncompressedSize = -1,
                            dataOffset = 0x300 + 3 * 2621456, id_h = -1,
                            name = Some (str ''USER_DATA003'')\<rparr>,
                  data = replicate 16 9 @ replicate 2621440 5\<rparr>,
      saveHeaderInfo = \<lparr>characterName = str ''A'', characterLevel = 25, secondsPlayed = 3600\<rparr>,
      headerData = sampleSummary,
      saveDataChecksum = replicate 16 9,
      saveData = replicate 2621440 5\<rparr>"

text \<open>An archive entry of a given name with 32 bytes of data.\<close>

definition sampleEntry :: "jsstring option \<Rightarrow> GameFile" where
  "sampleEntry nm =
     \<lparr>header = \<lparr>fileFlags = 0x40, compressedSize = 32, uncompressedSize = -1,
                 dataOffset = 0x300, id_h = -1, name = nm\<rparr>,
      data = replicate 16 1 @ replicate 16 2\<rparr>"

section \<open>The predicate of the stats locator, in the words of the specification\<close>

text \<open>
  The specification describes a candidate offset \<open>i\<close> of a slot payload by three things: the
  eight single-byte attributes at \<open>i, i + 4, ..., i + 28\<close>, the little-endian 16-bit field
  at \<open>i + 44\<close>, and the test that the attributes sum to the header level plus 79 and the
  field equals the header level. These definitions follow that description and not the
  code; the scan \<open>findStats\<close> of the code is compared with them.
\<close>

definition spec_attributes :: "buffer \<Rightarrow> int \<Rightarrow> int list" where
  "spec_attributes payload i = map (\<lambda>k. uint (payload ! (nat i + 4 * k))) [0..<8]"

definition spec_levelField :: "buffer \<Rightarrow> int \<Rightarrow> int" where
  "spec_levelField payload i =
     uint (payload ! (nat i + 44)) + 256 * uint (payload ! (nat i + 45))"

definition spec_isStatsBlock :: "buffer \<Rightarrow> int \<Rightarrow> int \<Rightarrow> bool" where
  "spec_isStatsBlock payload headerLevel i =
     (sum_list (spec_attributes payload i) = headerLevel + 79 \<and>
      spec_levelField payload i = headerLevel)"

definition spec_scanBound :: "buffer \<Rightarrow> int" where
  "spec_scanBound payload = min 120000 (int (length payload) - 50)"

section \<open>The skipped entries of the slot extractor\<close>

text \<open>
  The entries the slot extractor passes over: no name, a name that does not start with
  the prefix (the empty name among them), or a number after the prefix that exceeds 9.
  \<open>processSaves\<close> is compared with this description.
\<close>

definition spec_skipped :: "GameFile \<Rightarrow> bool" where
  "spec_skipped gf =
     (case name (header gf) of
        None \<Rightarrow> True
      | Some nm \<Rightarrow>
          \<not> startsWith nm SAVE_IDENTIFIER \<or>
          (case parseInt (substring nm (length SAVE_IDENTIFIER)) of
             None \<Rightarrow> False
           | Some idx \<Rightarrow> idx > 9))"

section \<open>Byte ranges of a buffer\<close>

text \<open>
  The vocabulary of the theorems on writes: \<open>region buf p n\<close> is the \<open>n\<close> bytes of \<open>buf\<close> from
  position \<open>p\<close> (fewer where the buffer ends before), and two buffers are the
  \<open>sameOutside\<close> a set of positions when they have one length and differ at most there.
  The ten slot windows of the file: the checksum of slot \<open>i\<close> is at \<open>checksumPos i\<close> and its
  data at \<open>slotDataPos i\<close>, sixteen bytes later, as \<open>recalculateChecksums\<close> steps through
  them.
\<close>

definition region :: "buffer \<Rightarrow> nat \<Rightarrow> nat \<Rightarrow> buffer" where
  "region buf p n = take n (drop p buf)"

definition sameOutside :: "nat set \<Rightarrow> buffer \<Rightarrow> buffer \<Rightarrow> bool" where
  "sameOutside W a b = (length a = length b \<and> (\<forall>n. n < length a \<and> n \<notin> W \<longrightarrow> a ! n = b ! n))"

definition checksumPos :: "nat \<Rightarrow> nat" where
  "checksumPos i = 0x300 + i * 2621456"

definition slotDataPos :: "nat \<Rightarrow> nat" where
  "slotDataPos i = 0x310 + i * 2621456"

definition checksumWindows :: "nat \<Rightarrow> nat set" where
  "checksumWindows i = (\<Union>j \<in> {i..<10}. {checksumPos j ..< checksumPos j + 16})"

section \<open>Derived resources: the three lookups\<close>

lemma js_or_table:
  assumes keys: "map fst tbl = [1..99]"
    and nonzero: "list_all (\<lambda>p. snd p \<noteq> 0) tbl"
  shows "js_or (map_of tbl (min v 99)) (map_of tbl 99) =
           (if 1 \<le> v \<and> v \<le> 99 then map_of tbl v else map_of tbl 99)"
    and "js_or (map_of tbl (min v 99)) (map_of tbl 99) \<noteq> None"
proof -
  have dom: "map_of tbl k = None \<longleftrightarrow> \<not> (1 \<le> k \<and> k \<le> 99)" for k
  proof -
    have "fst ` set tbl = set (map fst tbl)" by simp
    also have "\<dots> = {1..99}" unfolding keys by simp
    finally show ?thesis by (simp add: map_of_eq_None_iff)
  qed
  have nz: "map_of tbl k \<noteq> Some 0" for k
  proof
    assume "map_of tbl k = Some 0"
    then have "(k, 0) \<in> set tbl" by (rule map_of_SomeD)
    with nonzero show False by (auto simp: list_all_iff)
  qed
  have at99: "map_of tbl 99 \<noteq> None" using dom [of 99] by simp
  show "js_or (map_of tbl (min v 99)) (map_of tbl 99) =
           (if 1 \<le> v \<and> v \<le> 99 then map_of tbl v else map_of tbl 99)"
  proof (cases "1 \<le> v \<and> v \<le> 99")
    case True
    then have m: "min v 99 = v" by simp
    from True dom [of v] obtain x where x: "map_of tbl v = Some x" by auto
    with nz [of v] have "x \<noteq> 0" by auto
    with True x m show ?thesis by (simp add: js_or_def)
  next
    case False
    show ?thesis
    proof (cases "v < 1")
      case True
      then have "map_of tbl (min v 99) = None" using dom [of "min v 99"] by simp
      with False show ?thesis by (auto simp: js_or_def)
    next
      case f: False
      with False have "min v 99 = 99" by simp
      with False at99 nz [of 99] show ?thesis by (auto simp: js_or_def split: option.splits)
    qed
  qed
  then show "js_or (map_of tbl (min v 99)) (map_of tbl 99) \<noteq> None"
    using at99 dom [of v] by (auto split: if_splits)
qed

lemma hpTable_keys: "map fst hpTable = [1..99]"
  by code_simp

lemma hpTable_nonzero: "list_all (\<lambda>p. snd p \<noteq> 0) hpTable"
  by code_simp

lemma fpTable_keys: "map fst fpTable = [1..99]"
  by code_simp

lemma fpTable_nonzero: "list_all (\<lambda>p. snd p \<noteq> 0) fpTable"
  by code_simp

lemma staminaTable_keys: "map fst staminaTable = [1..99]"
  by code_simp

lemma staminaTable_nonzero: "list_all (\<lambda>p. snd p \<noteq> 0) staminaTable"
  by code_simp

lemma calculateHP_cases:
  "calculateHP v = (if 1 \<le> v \<and> v \<le> 99 then map_of hpTable v else map_of hpTable 99)"
  "calculateHP v \<noteq> None"
  unfolding calculateHP_def by (rule js_or_table [OF hpTable_keys hpTable_nonzero])+

lemma calculateFP_cases:
  "calculateFP v = (if 1 \<le> v \<and> v \<le> 99 then map_of fpTable v else map_of fpTable 99)"
  "calculateFP v \<noteq> None"
  unfolding calculateFP_def by (rule js_or_table [OF fpTable_keys fpTable_nonzero])+

lemma calculateStamina_cases:
  "calculateStamina v =
     (if 1 \<le> v \<and> v \<le> 99 then map_of staminaTable v else map_of staminaTable 99)"
  "calculateStamina v \<noteq> None"
  unfolding calculateStamina_def
  by (rule js_or_table [OF staminaTable_keys staminaTable_nonzero])+

text \<open>
  C10. For every integer \<open>v\<close> each of \<open>calculateHP\<close>, \<open>calculateFP\<close> and \<open>calculateStamina\<close>
  returns a number (never \<open>undefined\<close>): the table entry at \<open>v\<close> when \<open>1 \<le> v \<le> 99\<close>, and the
  table entry at 99 both when \<open>v > 99\<close> and when \<open>v < 1\<close>.
\<close>

theorem resource_lookups_total:
  "calculateHP v \<noteq> None \<and> calculateFP v \<noteq> None \<and> calculateStamina v \<noteq> None \<and>
   (1 \<le> v \<and> v \<le> 99 \<longrightarrow>
      calculateHP v = map_of hpTable v \<and> calculateFP v = map_of fpTable v \<and>
      calculateStamina v = map_of staminaTable v) \<and>
   (v > 99 \<or> v < 1 \<longrightarrow>
      calculateHP v = map_of hpTable 99 \<and> calculateFP v = map_of fpTable 99 \<and>
      calculateStamina v = map_of staminaTable 99)"
  using calculateHP_cases [of v] calculateFP_cases [of v] calculateStamina_cases [of v]
  by auto

theorem resource_lookups_total_witness:
  "calculateHP 0 = Some 2100 \<and> calculateFP 0 = Some 450 \<and> calculateStamina 0 = Some 170 \<and>
   calculateHP 150 = Some 2100 \<and> calculateFP 150 = Some 450 \<and> calculateStamina 150 = Some 170 \<and>
   calculateHP 40 = Some 1450 \<and> calculateFP 40 = Some 220 \<and> calculateStamina 40 = Some 140"
proof -
  have t: "map_of hpTable 99 = Some 2100" "map_of fpTable 99 = Some 450"
    "map_of staminaTable 99 = Some 170" "map_of hpTable 40 = Some 1450"
    "map_of fpTable 40 = Some 220" "map_of staminaTable 40 = Some 140"
    by code_simp+
  show ?thesis
    using resource_lookups_total [of 0] resource_lookups_total [of 150]
      resource_lookups_total [of 40] t
    by simp
qed

section \<open>The format byte\<close>

lemma shift_in_bit_0: "bit (push_bit 1 r OR (b AND 1)) 0 = bit b 0" for r b :: int
  unfolding bit_or_iff bit_push_bit_iff bit_and_iff bit_1_iff by simp

lemma shift_in_bit_Suc: "bit (push_bit 1 r OR (b AND 1)) (Suc m) = bit r m" for r b :: int
  unfolding bit_or_iff bit_push_bit_iff bit_and_iff bit_1_iff by simp

text \<open>
  The invariant of the loop of \<open>reverseBytes\<close>: with \<open>8 - i\<close> rounds to go, the result will
  hold the low \<open>8 - i\<close> bits of \<open>byte\<close> in reverse order below the bits of \<open>result\<close>.
\<close>

lemma reverseBytes_loop_bit:
  "i \<le> 8 \<Longrightarrow>
   bit (reverseBytes_loop i result byte) n \<longleftrightarrow>
     (if n < 8 - i then bit byte (7 - i - n) else bit result (n - (8 - i)))"
proof (induction i result byte arbitrary: n rule: reverseBytes_loop.induct)
  case (1 i result byte)
  show ?case
  proof (cases "i < 8")
    case True
    then have step: "reverseBytes_loop i result byte =
        reverseBytes_loop (i + 1) (push_bit 1 result OR (byte AND 1)) (drop_bit 1 byte)"
      by (subst reverseBytes_loop.simps) simp
    from True have le: "i + 1 \<le> 8" by simp
    note ih = "1.IH" [OF True le, of n]
    consider "n < 7 - i" | "n = 7 - i" | "n > 7 - i" by linarith
    then show ?thesis
    proof cases
      case 1
      then have a: "n < 8 - i" "n < 8 - (i + 1)" and b: "7 - (i + 1) - n + 1 = 7 - i - n"
        by simp_all
      show ?thesis
        unfolding step ih using a by (simp add: bit_drop_bit_eq b [symmetric] del: One_nat_def)
    next
      case 2
      with True have a: "n < 8 - i" "\<not> n < 8 - (i + 1)" "n - (8 - (i + 1)) = 0" "7 - i - n = 0"
        by simp_all
      show ?thesis
        unfolding step ih using a by (simp only: shift_in_bit_0 if_True if_False)
    next
      case 3
      with True have a: "\<not> n < 8 - i" "\<not> n < 8 - (i + 1)"
        "n - (8 - (i + 1)) = Suc (n - (8 - i))"
        by simp_all
      show ?thesis
        unfolding step ih using a by (simp only: shift_in_bit_Suc if_True if_False)
    qed
  next
    case False
    with "1.prems" have "i = 8" by simp
    then show ?thesis by (subst reverseBytes_loop.simps) simp
  qed
qed

lemma reverseBytes_bit: "bit (reverseBytes byte) n \<longleftrightarrow> n < 8 \<and> bit byte (7 - n)"
  unfolding reverseBytes_def by (simp add: reverseBytes_loop_bit)

lemma reverseBytes_range: "0 \<le> reverseBytes byte \<and> reverseBytes byte < 256"
proof -
  have "reverseBytes byte = take_bit 8 (reverseBytes byte)"
    by (rule bit_eqI) (auto simp: bit_take_bit_iff reverseBytes_bit)
  moreover have "0 \<le> take_bit 8 (reverseBytes byte)" by simp
  moreover have "take_bit 8 (reverseBytes byte) < 2 ^ 8" by (rule take_bit_int_less_exp)
  ultimately show ?thesis by simp
qed

lemma resolveFormat_cases:
  "resolveFormat bbe raw =
     (if bbe \<or> ((raw AND 0x1) \<noteq> 0 \<and> (raw AND 0x80) = 0) then raw else reverseBytes raw)"
  by (simp add: resolveFormat_def Let_def)

lemma readUInt8_range:
  "readUInt8 r = Inr (v, r') \<Longrightarrow> 0 \<le> v \<and> v < 256"
proof -
  have "uint (b :: byte) < 256" for b
    using uint_bounded [of b] by simp
  then show "readUInt8 r = Inr (v, r') \<Longrightarrow> 0 \<le> v \<and> v < 256"
    by (auto simp: readUInt8_def Buffer_readUInt8_def split: if_splits)
qed

text \<open>
  What \<open>parseSaveFile\<close> stores as \<open>format\<close> is \<open>resolveFormat\<close> of the two header fields it
  has just read, and the raw format is a byte.
\<close>

lemma readArchiveHeader_format:
  assumes "readArchiveHeader r = Inr (ah, r')"
  shows "ah_format ah = resolveFormat (ah_bitBigEndian ah) (ah_rawFormat ah)"
    and "0 \<le> ah_rawFormat ah" and "ah_rawFormat ah < 256"
proof -
  from assms obtain r8 r9 where raw: "readUInt8 r8 = Inr (ah_rawFormat ah, r9)"
    and fmt: "ah_format ah = resolveFormat (ah_bitBigEndian ah) (ah_rawFormat ah)"
    unfolding readArchiveHeader_def ebind_def Let_def
    by (auto split: sum.splits prod.splits if_splits)
  from fmt show "ah_format ah = resolveFormat (ah_bitBigEndian ah) (ah_rawFormat ah)" .
  from readUInt8_range [OF raw] show "0 \<le> ah_rawFormat ah" and "ah_rawFormat ah < 256"
    by simp_all
qed

text \<open>
  C9. The interpreted format is the raw byte itself exactly in the two cases named (the
  bit-order flag says big-endian bits, or bit \<open>0x01\<close> of the raw byte is set and bit \<open>0x80\<close>
  is clear) and \<open>reverseBytes\<close> of the raw byte in every other case; \<open>reverseBytes\<close> is the
  reversal of the eight bits: bit \<open>i\<close> of its result is bit \<open>7 - i\<close> of its argument for
  \<open>i < 8\<close>, and no higher bit is set. The header that \<open>parseSaveFile\<close> reads holds this
  format for the raw byte and the flag it read.
\<close>

theorem format_byte_resolution:
  "resolveFormat bbe raw =
     (if bbe \<or> ((raw AND 0x1) \<noteq> 0 \<and> (raw AND 0x80) = 0) then raw else reverseBytes raw) \<and>
   (\<forall>i. bit (reverseBytes raw) i \<longleftrightarrow> i < 8 \<and> bit raw (7 - i)) \<and>
   (\<forall>r ah r'. readArchiveHeader r = Inr (ah, r') \<longrightarrow>
      0 \<le> ah_rawFormat ah \<and> ah_rawFormat ah < 256 \<and>
      ah_format ah = resolveFormat (ah_bitBigEndian ah) (ah_rawFormat ah))"
  using resolveFormat_cases [of bbe raw] reverseBytes_bit [of raw] readArchiveHeader_format
  by blast

theorem format_byte_resolution_witness:
  "resolveFormat False 0x74 = 0x2E \<and> resolveFormat True 0x74 = 0x74 \<and>
   resolveFormat False 0x41 = 0x41 \<and>
   (\<exists>ah r'. readArchiveHeader (newBufferReader (sampleHeader 12 0x74)) = Inr (ah, r') \<and>
      ah_rawFormat ah = 0x74 \<and> ah_bitBigEndian ah = False \<and> ah_format ah = 0x2E)"
proof -
  let ?ah = "\<lparr>ah_bigEndian = False, ah_bitBigEndian = False, ah_fileCount = 12,
        ah_headerSize = 64, ah_version = str ''00000001'', ah_fileHeaderSize = 32,
        ah_unicode = True, ah_rawFormat = 0x74, ah_format = 0x2E, ah_extended = 0\<rparr>"
  have rb: "reverseBytes 0x74 = 0x2E" by code_simp
  have parse: "readArchiveHeader (newBufferReader (sampleHeader 12 0x74)) =
      Inr (?ah, \<lparr>buffer = sampleHeader 12 0x74, offset = 64\<rparr>)"
    by code_simp
  have a: "resolveFormat False 0x74 = 0x2E"
    using format_byte_resolution [of False "0x74"] rb by simp
  have b: "resolveFormat True 0x74 = 0x74"
    using format_byte_resolution [of True "0x74"] by simp
  have c: "resolveFormat False 0x41 = 0x41"
    using format_byte_resolution [of False "0x41"] by simp
  from parse have "\<exists>ah r'. readArchiveHeader (newBufferReader (sampleHeader 12 0x74)) = Inr (ah, r') \<and>
      ah_rawFormat ah = 0x74 \<and> ah_bitBigEndian ah = False \<and> ah_format ah = 0x2E"
    by simp
  with a b c show ?thesis by blast
qed

section \<open>The byte cursor\<close>

lemma Buffer_slice_nonneg:
  assumes "0 \<le> s" and "0 \<le> n"
  shows "Buffer_slice buf s (s + n) = take (nat n) (drop (nat s) buf)"
proof (cases "s < int (length buf)")
  case True
  show ?thesis
  proof (cases "s + n < int (length buf)")
    case t: True
    with True assms have "adjustOffset s (length buf) = nat s"
      "adjustOffset (s + n) (length buf) = nat (s + n)"
      by (simp_all add: adjustOffset_def)
    moreover from assms have "nat (s + n) - nat s = nat n" by simp
    ultimately show ?thesis by (simp add: Buffer_slice_def)
  next
    case False
    with True assms have "adjustOffset s (length buf) = nat s"
      "adjustOffset (s + n) (length buf) = length buf"
      by (simp_all add: adjustOffset_def)
    moreover from False assms have "length buf - nat s \<le> nat n" by simp
    ultimately show ?thesis by (simp add: Buffer_slice_def)
  qed
next
  case False
  with assms have "adjustOffset s (length buf) = length buf" "length buf \<le> nat s"
    by (simp_all add: adjustOffset_def)
  then show ?thesis by (simp add: Buffer_slice_def)
qed

lemma Buffer_toString_ascii_nonneg:
  assumes "0 \<le> s" and "0 \<le> n"
  shows "Buffer_toString_ascii buf s (s + n) =
           map (\<lambda>b. ucast (b AND 0x7F)) (take (nat n) (drop (nat s) buf))"
proof (cases "int (length buf) \<le> s \<or> n = 0")
  case True
  with assms show ?thesis by (auto simp: Buffer_toString_ascii_def Let_def)
next
  case False
  with assms have s: "s < int (length buf)" and n: "0 < n" by simp_all
  show ?thesis
  proof (cases "int (length buf) < s + n")
    case True
    with s assms have "length buf - nat s \<le> nat n" by simp
    with True s n assms show ?thesis
      by (simp add: Buffer_toString_ascii_def Let_def nat_diff_distrib)
  next
    case False
    with s n assms show ?thesis
      by (simp add: Buffer_toString_ascii_def Let_def)
  qed
qed

lemma typed_reads_out_of_bounds:
  "int (length (buffer r)) < offset r + 1 \<Longrightarrow> readUInt8 r = Inl OutOfBounds"
  "int (length (buffer r)) < offset r + 1 \<Longrightarrow> readBoolean r = Inl OutOfBounds"
  "int (length (buffer r)) < offset r + 4 \<Longrightarrow> readInt32LE r = Inl OutOfBounds"
  "int (length (buffer r)) < offset r + 8 \<Longrightarrow> readBigInt64LE r = Inl OutOfBounds"
  by (simp_all add: readUInt8_def readBoolean_def readInt32LE_def readBigInt64LE_def
      Buffer_readUInt8_def Buffer_readInt32LE_def Buffer_readBigInt64LE_def)

text \<open>
  C7, as the code has it. The four fixed-width reads \<open>readUInt8\<close>, \<open>readBoolean\<close>,
  \<open>readInt32LE\<close> and \<open>readBigInt64LE\<close> fail with \<open>OutOfBounds\<close> when the position plus
  their width exceeds the length of the buffer. \<open>readString(n)\<close> and \<open>readBytes(n)\<close> never
  fail: from a position that is not negative they return what the buffer holds of the
  \<open>n\<close> bytes asked for, which is fewer than \<open>n\<close> bytes when the range runs past the end,
  and they advance the position by \<open>n\<close> all the same.
\<close>

theorem cursor_reads_bounds:
  "(int (length (buffer r)) < offset r + 1 \<longrightarrow>
      readUInt8 r = Inl OutOfBounds \<and> readBoolean r = Inl OutOfBounds) \<and>
   (int (length (buffer r)) < offset r + 4 \<longrightarrow> readInt32LE r = Inl OutOfBounds) \<and>
   (int (length (buffer r)) < offset r + 8 \<longrightarrow> readBigInt64LE r = Inl OutOfBounds) \<and>
   (0 \<le> offset r \<and> 0 \<le> n \<longrightarrow>
      readBytes r n =
        Inr (take (nat n) (drop (nat (offset r)) (buffer r)), r\<lparr>offset := offset r + n\<rparr>) \<and>
      readString r n =
        Inr (map (\<lambda>b. ucast (b AND 0x7F)) (take (nat n) (drop (nat (offset r)) (buffer r))),
             r\<lparr>offset := offset r + n\<rparr>))"
  using typed_reads_out_of_bounds [of r]
  by (simp add: readBytes_def readString_def Buffer_slice_nonneg Buffer_toString_ascii_nonneg)

theorem cursor_reads_bounds_witness:
  "int (length (buffer \<lparr>buffer = [0x41, 0x42, 0xC3], offset = 1\<rparr>)) <
     offset \<lparr>buffer = [0x41, 0x42, 0xC3], offset = 1\<rparr> + 4 \<and>
   readInt32LE \<lparr>buffer = [0x41, 0x42, 0xC3], offset = 1\<rparr> = Inl OutOfBounds \<and>
   readBigInt64LE \<lparr>buffer = [0x41, 0x42, 0xC3], offset = 1\<rparr> = Inl OutOfBounds \<and>
   readBytes \<lparr>buffer = [0x41, 0x42, 0xC3], offset = 1\<rparr> 4 =
     Inr ([0x42, 0xC3], \<lparr>buffer = [0x41, 0x42, 0xC3], offset = 5\<rparr>) \<and>
   readString \<lparr>buffer = [0x41, 0x42, 0xC3], offset = 1\<rparr> 4 =
     Inr ([0x42, 0x43], \<lparr>buffer = [0x41, 0x42, 0xC3], offset = 5\<rparr>) \<and>
   int (length (buffer \<lparr>buffer = [0x41, 0x42, 0xC3], offset = 3\<rparr>)) <
     offset \<lparr>buffer = [0x41, 0x42, 0xC3], offset = 3\<rparr> + 1 \<and>
   readUInt8 \<lparr>buffer = [0x41, 0x42, 0xC3], offset = 3\<rparr> = Inl OutOfBounds \<and>
   readBoolean \<lparr>buffer = [0x41, 0x42, 0xC3], offset = 3\<rparr> = Inl OutOfBounds"
  using cursor_reads_bounds [of "\<lparr>buffer = [0x41, 0x42, 0xC3], offset = 1\<rparr>" 4]
    cursor_reads_bounds [of "\<lparr>buffer = [0x41, 0x42, 0xC3], offset = 3\<rparr>" 0]
  by simp

text \<open>
  C7 as the specification states it fails for \<open>readBytes\<close> and \<open>readString\<close>: four bytes asked for at
  position 0 of a buffer of two, and both return the two bytes there are.
\<close>

theorem cursor_reads_counterexample:
  "int (length (buffer \<lparr>buffer = [0x41, 0x42], offset = 0\<rparr>)) <
     offset \<lparr>buffer = [0x41, 0x42], offset = 0\<rparr> + 4 \<and>
   readBytes \<lparr>buffer = [0x41, 0x42], offset = 0\<rparr> 4 =
     Inr ([0x41, 0x42], \<lparr>buffer = [0x41, 0x42], offset = 4\<rparr>) \<and>
   readString \<lparr>buffer = [0x41, 0x42], offset = 0\<rparr> 4 =
     Inr (str ''AB'', \<lparr>buffer = [0x41, 0x42], offset = 4\<rparr>) \<and>
   readBytes \<lparr>buffer = [0x41, 0x42], offset = 0\<rparr> 4 \<noteq> Inl OutOfBounds \<and>
   readString \<lparr>buffer = [0x41, 0x42], offset = 0\<rparr> 4 \<noteq> Inl OutOfBounds"
  by code_simp

section \<open>Numbers from 64-bit fields\<close>

lemma significandShift_exact: "a < 2 ^ 53 \<Longrightarrow> significandShift a = 0"
  by (subst significandShift.simps) simp

text \<open>An integer below \<open>2 ^ 53\<close> in magnitude is converted exactly.\<close>

lemma Number_exact: "\<bar>x\<bar> < 2 ^ 53 \<Longrightarrow> Number x = x"
  by (simp add: Number_def Let_def significandShift_exact mult_sgn_abs)

text \<open>
  For a data offset and a size below \<open>2 ^ 52\<close> in magnitude, as in every file that fits in
  memory, a round of \<open>readGameFiles\<close> is \<open>seek\<close> and \<open>readBytes\<close> on the fields as they are.
\<close>

lemma readGameFiles_loop_exact:
  assumes "\<bar>dataOffset h\<bar> < 2 ^ 52" and "\<bar>compressedSize h\<bar> < 2 ^ 52"
  shows "readGameFiles_loop r (h # hs) acc =
     (case readBytes (seek r (dataOffset h)) (compressedSize h) of
        Inl e \<Rightarrow> Inl e
      | Inr (fileBytes, r') \<Rightarrow>
          readGameFiles_loop r' hs (acc @ [\<lparr>header = h, data = fileBytes\<rparr>]))"
proof -
  from assms have a: "Number (dataOffset h) = dataOffset h"
    and b: "Number (compressedSize h) = compressedSize h"
    by (simp_all add: Number_exact)
  from assms have "\<bar>dataOffset h + compressedSize h\<bar> < 2 ^ 53" by simp
  then have c: "Number (dataOffset h + compressedSize h) = dataOffset h + compressedSize h"
    by (rule Number_exact)
  show ?thesis
    by (simp add: Let_def a b c readBytes_def seek_def)
qed

section \<open>Entry headers: the sentinel\<close>

lemma typed_read_errors:
  "readUInt8 r = Inl e \<Longrightarrow> e = OutOfBounds"
  "readInt32LE r = Inl e \<Longrightarrow> e = OutOfBounds"
  "readBigInt64LE r = Inl e \<Longrightarrow> e = OutOfBounds"
  by (auto simp: readUInt8_def readInt32LE_def readBigInt64LE_def Buffer_readUInt8_def
      Buffer_readInt32LE_def Buffer_readBigInt64LE_def split: if_splits sum.splits)

lemma readSizesAndOffset_error:
  "readSizesAndOffset r fmt = Inl e \<Longrightarrow> e = OutOfBounds"
  unfolding readSizesAndOffset_def ebind_def
  by (auto split: sum.splits prod.splits if_splits dest: typed_read_errors)

lemma readUnicodeString_loop_error:
  assumes "readUnicodeString_loop r cb bs = Some res"
  shows "res \<noteq> Inl UnknownTableFormat"
  by (rule readUnicodeString_loop.raw_induct
        [where P = "\<lambda>r cb bs res. res \<noteq> Inl UnknownTableFormat", OF _ assms])
     (auto simp: readBytes_def split: if_splits)

lemma readUnicodeString_error:
  "readUnicodeString r be \<noteq> Some (Inl UnknownTableFormat)"
  unfolding readUnicodeString_def
  by (auto simp: readBytes_def split: option.splits sum.splits prod.splits if_splits
      dest: readUnicodeString_loop_error)

lemma readNameField_error:
  "readNameField r fmt uni be \<noteq> Some (Inl UnknownTableFormat)"
  unfolding readNameField_def Let_def
  using readUnicodeString_error
  by (auto split: option.splits sum.splits prod.splits if_splits dest: typed_read_errors)

text \<open>With the sentinel in place the header of the entry is never refused as unknown.\<close>

lemma readGameFileHeader_sentinel_ok:
  assumes "readUInt8 r = Inr (flags, r1)" and "readInt32LE (skip r1 3) = Inr (-1, r2)"
  shows "readGameFileHeader r fmt uni be \<noteq> Some (Inl UnknownTableFormat)"
proof
  assume a: "readGameFileHeader r fmt uni be = Some (Inl UnknownTableFormat)"
  show False
  proof (cases "readSizesAndOffset r2 fmt")
    case (Inl e)
    with a assms readSizesAndOffset_error [OF Inl] show False
      by (simp add: readGameFileHeader_def)
  next
    case (Inr p)
    obtain cs us dof ident r3 where p: "p = ((cs, us, dof, ident), r3)"
      by (cases p) auto
    show False
    proof (cases "readNameField r3 fmt uni be")
      case None
      with a assms Inr p show False by (simp add: readGameFileHeader_def)
    next
      case (Some q)
      show False
      proof (cases q)
        case (Inl e)
        with Some readNameField_error [of r3 fmt uni be] have "e \<noteq> UnknownTableFormat" by auto
        with a assms Inr p Some Inl show False by (simp add: readGameFileHeader_def)
      next
        case inr: (Inr nr)
        obtain nm r4 where nr: "nr = (nm, r4)" by (cases nr) auto
        from a assms Inr p Some inr nr show False
          by (auto simp: readGameFileHeader_def ebind_def
              split: if_splits sum.splits prod.splits dest: typed_read_errors)
      qed
    qed
  qed
qed

lemma readGameFileHeader_sentinel_bad:
  assumes "readUInt8 r = Inr (flags, r1)" and "readInt32LE (skip r1 3) = Inr (s, r2)"
    and "s \<noteq> -1"
  shows "readGameFileHeader r fmt uni be = Some (Inl UnknownTableFormat)"
  using assms by (simp add: readGameFileHeader_def)

lemma readGameFileHeaders_loop_add:
  "readGameFileHeaders_loop (k + m) r fmt uni be acc =
     (case readGameFileHeaders_loop k r fmt uni be acc of
        None \<Rightarrow> None
      | Some (Inl e) \<Rightarrow> Some (Inl e)
      | Some (Inr (hs, r')) \<Rightarrow> readGameFileHeaders_loop m r' fmt uni be hs)"
  by (induction k arbitrary: r acc) (auto split: option.splits sum.splits prod.splits)

lemma readGameFileHeaders_abort:
  assumes prev: "readGameFileHeaders_loop k r fmt uni be [] = Some (Inr (hs, rk))"
    and more: "int k < fc"
    and bad: "readGameFileHeader rk fmt uni be = Some (Inl e)"
  shows "readGameFileHeaders r fc fmt uni be = Some (Inl e)"
proof -
  define m where "m = nat fc - Suc k"
  from more have m: "nat fc = k + Suc m" by (simp add: m_def)
  show ?thesis
    unfolding readGameFileHeaders_def m readGameFileHeaders_loop_add
    using prev bad by simp
qed

lemma parseSaveFile_abort:
  assumes "readArchiveHeader (newBufferReader buf) = Inr (ah, r0)"
    and "readGameFileHeaders r0 (ah_fileCount ah) (ah_format ah) (ah_unicode ah) (ah_bigEndian ah)
           = Some (Inl e)"
  shows "parseSaveFile buf = Some (Inl e)"
  using assms by (simp add: parseSaveFile_def)

lemma readGameFileHeader_sentinel_cursor:
  assumes "readUInt8 r = Inr (flags, r1)" and "readInt32LE (skip r1 3) = Inr (s, r2)"
  shows "buffer r2 = buffer r" and "offset r2 = offset r + 8"
  using assms
  by (auto simp: readUInt8_def readInt32LE_def skip_def split: sum.splits)

text \<open>With the sentinel in place the header is made of the fields read after it.\<close>

lemma readGameFileHeader_sentinel_fields:
  assumes "readUInt8 r = Inr (flags, r1)" and "readInt32LE (skip r1 3) = Inr (-1, r2)"
    and "readSizesAndOffset r2 fmt = Inr ((cs, us, dof, ident), r3)"
    and "readNameField r3 fmt uni be = Some (Inr (nm, r4))"
  shows "fmt \<noteq> 4 \<Longrightarrow> readGameFileHeader r fmt uni be =
           Some (Inr (\<lparr>fileFlags = flags, compressedSize = cs, uncompressedSize = us,
                        dataOffset = dof, id_h = ident, name = nm\<rparr>, r4))"
    and "fmt = 4 \<Longrightarrow> readInt32LE r4 = Inr (ident', r5) \<Longrightarrow> readInt32LE r5 = Inr (d, r6) \<Longrightarrow>
         readGameFileHeader r fmt uni be =
           Some (Inr (\<lparr>fileFlags = flags, compressedSize = cs, uncompressedSize = us,
                        dataOffset = dof, id_h = ident', name = nm\<rparr>, r6))"
  using assms by (simp_all add: readGameFileHeader_def ebind_def)

text \<open>
  C6, as the code has it. \<open>-1\<close> is the sentinel the parser expects in the 32-bit field after
  the flag byte and the three skipped bytes of an entry header. When the field of entry
  number \<open>k\<close> (the entries before it read) holds any other value, \<open>parseSaveFile\<close> fails with
  \<open>UnknownTableFormat\<close>. When it holds \<open>-1\<close>, reading that entry header never fails with
  \<open>UnknownTableFormat\<close>: the cursor is 8 bytes into the entry, the parser goes on to read
  the fields that follow, and when the sizes, the data offset, the id and the name are read
  the header of the entry is returned with the flag byte and those values (for format 4,
  with the id read after the name, and the 32-bit field after that id skipped).
\<close>

theorem sentinel_mismatch_aborts:
  assumes "readArchiveHeader (newBufferReader buf) = Inr (ah, r0)"
    and "readGameFileHeaders_loop k r0 (ah_format ah) (ah_unicode ah) (ah_bigEndian ah) []
           = Some (Inr (hs, rk))"
    and "int k < ah_fileCount ah"
    and "readUInt8 rk = Inr (flags, r1)"
    and "readInt32LE (skip r1 3) = Inr (s, r2)"
  shows "(s \<noteq> -1 \<longrightarrow> parseSaveFile buf = Some (Inl UnknownTableFormat)) \<and>
         (s = -1 \<longrightarrow>
            readGameFileHeader rk (ah_format ah) (ah_unicode ah) (ah_bigEndian ah)
              \<noteq> Some (Inl UnknownTableFormat) \<and>
            buffer r2 = buffer rk \<and> offset r2 = offset rk + 8 \<and>
            (\<forall>cs us dof ident r3 nm r4.
               readSizesAndOffset r2 (ah_format ah) = Inr ((cs, us, dof, ident), r3) \<and>
               readNameField r3 (ah_format ah) (ah_unicode ah) (ah_bigEndian ah)
                 = Some (Inr (nm, r4)) \<longrightarrow>
               (ah_format ah \<noteq> 4 \<longrightarrow>
                  readGameFileHeader rk (ah_format ah) (ah_unicode ah) (ah_bigEndian ah) =
                    Some (Inr (\<lparr>fileFlags = flags, compressedSize = cs, uncompressedSize = us,
                                 dataOffset = dof, id_h = ident, name = nm\<rparr>, r4))) \<and>
               (\<forall>ident' r5 d r6.
                  ah_format ah = 4 \<and> readInt32LE r4 = Inr (ident', r5) \<and>
                  readInt32LE r5 = Inr (d, r6) \<longrightarrow>
                  readGameFileHeader rk (ah_format ah) (ah_unicode ah) (ah_bigEndian ah) =
                    Some (Inr (\<lparr>fileFlags = flags, compressedSize = cs, uncompressedSize = us,
                                 dataOffset = dof, id_h = ident', name = nm\<rparr>, r6)))))"
proof (intro conjI impI)
  assume "s \<noteq> -1"
  with assms(4,5) have "readGameFileHeader rk (ah_format ah) (ah_unicode ah) (ah_bigEndian ah)
      = Some (Inl UnknownTableFormat)"
    by (rule readGameFileHeader_sentinel_bad)
  with assms(2,3) have "readGameFileHeaders r0 (ah_fileCount ah) (ah_format ah) (ah_unicode ah)
      (ah_bigEndian ah) = Some (Inl UnknownTableFormat)"
    by (rule readGameFileHeaders_abort)
  with assms(1) show "parseSaveFile buf = Some (Inl UnknownTableFormat)"
    by (rule parseSaveFile_abort)
next
  assume "s = -1"
  with assms(4,5) show "readGameFileHeader rk (ah_format ah) (ah_unicode ah) (ah_bigEndian ah)
      \<noteq> Some (Inl UnknownTableFormat)"
    by (auto dest: readGameFileHeader_sentinel_ok)
next
  show "buffer r2 = buffer rk" "offset r2 = offset rk + 8"
    by (rule readGameFileHeader_sentinel_cursor [OF assms(4,5)])+
next
  assume s: "s = -1"
  show "\<forall>cs us dof ident r3 nm r4.
     readSizesAndOffset r2 (ah_format ah) = Inr ((cs, us, dof, ident), r3) \<and>
     readNameField r3 (ah_format ah) (ah_unicode ah) (ah_bigEndian ah)
       = Some (Inr (nm, r4)) \<longrightarrow>
     (ah_format ah \<noteq> 4 \<longrightarrow>
        readGameFileHeader rk (ah_format ah) (ah_unicode ah) (ah_bigEndian ah) =
          Some (Inr (\<lparr>fileFlags = flags, compressedSize = cs, uncompressedSize = us,
                       dataOffset = dof, id_h = ident, name = nm\<rparr>, r4))) \<and>
     (\<forall>ident' r5 d r6.
        ah_format ah = 4 \<and> readInt32LE r4 = Inr (ident', r5) \<and>
        readInt32LE r5 = Inr (d, r6) \<longrightarrow>
        readGameFileHeader rk (ah_format ah) (ah_unicode ah) (ah_bigEndian ah) =
          Some (Inr (\<lparr>fileFlags = flags, compressedSize = cs, uncompressedSize = us,
                       dataOffset = dof, id_h = ident', name = nm\<rparr>, r6)))"
  proof (intro allI impI conjI)
    fix cs us dof ident r3 nm r4
    assume a: "readSizesAndOffset r2 (ah_format ah) = Inr ((cs, us, dof, ident), r3) \<and>
      readNameField r3 (ah_format ah) (ah_unicode ah) (ah_bigEndian ah) = Some (Inr (nm, r4))"
    from assms(5) s have s5: "readInt32LE (skip r1 3) = Inr (-1, r2)" by simp
    {
      assume "ah_format ah \<noteq> 4"
      with readGameFileHeader_sentinel_fields(1) [OF assms(4) s5 a [THEN conjunct1]
          a [THEN conjunct2]]
      show "readGameFileHeader rk (ah_format ah) (ah_unicode ah) (ah_bigEndian ah) =
          Some (Inr (\<lparr>fileFlags = flags, compressedSize = cs, uncompressedSize = us,
                       dataOffset = dof, id_h = ident, name = nm\<rparr>, r4))"
        by simp
    }
    fix ident' r5 d r6
    assume b: "ah_format ah = 4 \<and> readInt32LE r4 = Inr (ident', r5) \<and>
        readInt32LE r5 = Inr (d, r6)"
    with readGameFileHeader_sentinel_fields(2) [OF assms(4) s5 a [THEN conjunct1]
        a [THEN conjunct2], of ident' r5 d r6]
    show "readGameFileHeader rk (ah_format ah) (ah_unicode ah) (ah_bigEndian ah) =
          Some (Inr (\<lparr>fileFlags = flags, compressedSize = cs, uncompressedSize = us,
                       dataOffset = dof, id_h = ident', name = nm\<rparr>, r6))"
      by simp
  qed
qed

text \<open>
  Three archives: one whose first entry has \<open>-2\<close> in the field, which \<open>parseSaveFile\<close>
  refuses; one of format \<open>0x2E\<close> (raw \<open>0x74\<close>, as the game writes it) whose only entry has
  \<open>-1\<close> there, compressed size 2, uncompressed size 3, data offset 64, id 7 and the name
  \<open>A\<close>; and one of format 4 whose only entry has \<open>-1\<close> there, compressed size 2, data
  offset 64, the name \<open>B\<close> and, after the name offset, the id 9.
\<close>

theorem sentinel_mismatch_aborts_witness:
  "(\<exists>ah r0 r1 r2.
      readArchiveHeader (newBufferReader
        (sampleHeader 12 0x74 @ [5, 0, 0, 0, 0xFE, 0xFF, 0xFF, 0xFF])) = Inr (ah, r0) \<and>
      0 < ah_fileCount ah \<and> readUInt8 r0 = Inr (5, r1) \<and>
      readInt32LE (skip r1 3) = Inr (-2, r2)) \<and>
   parseSaveFile (sampleHeader 12 0x74 @ [5, 0, 0, 0, 0xFE, 0xFF, 0xFF, 0xFF])
     = Some (Inl UnknownTableFormat) \<and>
   (\<exists>ah r0 r1 r2.
      readArchiveHeader (newBufferReader (sampleHeader 1 0x74 @ sampleEntryHeader))
        = Inr (ah, r0) \<and>
      0 < ah_fileCount ah \<and> readUInt8 r0 = Inr (5, r1) \<and>
      readInt32LE (skip r1 3) = Inr (-1, r2) \<and> offset r2 = 72 \<and>
      readGameFileHeader r0 (ah_format ah) (ah_unicode ah) (ah_bigEndian ah) =
        Some (Inr (\<lparr>fileFlags = 5, compressedSize = 2, uncompressedSize = 3,
                     dataOffset = 64, id_h = 7, name = Some (str ''A'')\<rparr>,
                   \<lparr>buffer = sampleHeader 1 0x74 @ sampleEntryHeader, offset = 100\<rparr>))) \<and>
   (\<exists>ah r0 r1 r2.
      readArchiveHeader (newBufferReader (sampleHeader 1 0x20 @ sampleEntryHeader4))
        = Inr (ah, r0) \<and>
      ah_format ah = 4 \<and> readUInt8 r0 = Inr (5, r1) \<and>
      readInt32LE (skip r1 3) = Inr (-1, r2) \<and>
      readGameFileHeader r0 (ah_format ah) (ah_unicode ah) (ah_bigEndian ah) =
        Some (Inr (\<lparr>fileFlags = 5, compressedSize = 2, uncompressedSize = -1,
                     dataOffset = 64, id_h = 9, name = Some (str ''B'')\<rparr>,
                   \<lparr>buffer = sampleHeader 1 0x20 @ sampleEntryHeader4, offset = 96\<rparr>)))"
proof -
  let ?B = "sampleHeader 12 0x74 @ [5, 0, 0, 0, 0xFE, 0xFF, 0xFF, 0xFF]"
  let ?ah = "\<lparr>ah_bigEndian = False, ah_bitBigEndian = False, ah_fileCount = 12,
        ah_headerSize = 64, ah_version = str ''00000001'', ah_fileHeaderSize = 32,
        ah_unicode = True, ah_rawFormat = 0x74, ah_format = 0x2E, ah_extended = 0\<rparr>"
  have h: "readArchiveHeader (newBufferReader ?B) = Inr (?ah, \<lparr>buffer = ?B, offset = 64\<rparr>)"
    by code_simp
  have l: "readGameFileHeaders_loop 0 \<lparr>buffer = ?B, offset = 64\<rparr> (ah_format ?ah)
      (ah_unicode ?ah) (ah_bigEndian ?ah) [] = Some (Inr ([], \<lparr>buffer = ?B, offset = 64\<rparr>))"
    by simp
  have c: "int 0 < ah_fileCount ?ah" and c': "0 < ah_fileCount ?ah" by simp_all
  have f: "readUInt8 \<lparr>buffer = ?B, offset = 64\<rparr> = Inr (5, \<lparr>buffer = ?B, offset = 65\<rparr>)"
    by code_simp
  have s: "readInt32LE (skip \<lparr>buffer = ?B, offset = 65\<rparr> 3)
      = Inr (-2, \<lparr>buffer = ?B, offset = 72\<rparr>)"
    by code_simp
  have p: "parseSaveFile ?B = Some (Inl UnknownTableFormat)"
    using sentinel_mismatch_aborts [OF h l c f s] by simp
  let ?E = "sampleHeader 1 0x74 @ sampleEntryHeader"
  let ?ae = "\<lparr>ah_bigEndian = False, ah_bitBigEndian = False, ah_fileCount = 1,
        ah_headerSize = 64, ah_version = str ''00000001'', ah_fileHeaderSize = 32,
        ah_unicode = True, ah_rawFormat = 0x74, ah_format = 0x2E, ah_extended = 0\<rparr>"
  have h': "readArchiveHeader (newBufferReader ?E) = Inr (?ae, \<lparr>buffer = ?E, offset = 64\<rparr>)"
    by code_simp
  have l': "readGameFileHeaders_loop 0 \<lparr>buffer = ?E, offset = 64\<rparr> (ah_format ?ae)
      (ah_unicode ?ae) (ah_bigEndian ?ae) [] = Some (Inr ([], \<lparr>buffer = ?E, offset = 64\<rparr>))"
    by simp
  have d: "int 0 < ah_fileCount ?ae" and d': "0 < ah_fileCount ?ae" by simp_all
  have f': "readUInt8 \<lparr>buffer = ?E, offset = 64\<rparr> = Inr (5, \<lparr>buffer = ?E, offset = 65\<rparr>)"
    by code_simp
  have s': "readInt32LE (skip \<lparr>buffer = ?E, offset = 65\<rparr> 3)
      = Inr (-1, \<lparr>buffer = ?E, offset = 72\<rparr>)"
    by code_simp
  have z: "readSizesAndOffset \<lparr>buffer = ?E, offset = 72\<rparr> (ah_format ?ae)
      = Inr ((2, 3, 64, 7), \<lparr>buffer = ?E, offset = 96\<rparr>)"
    by code_simp
  have n: "readNameField \<lparr>buffer = ?E, offset = 96\<rparr> (ah_format ?ae) (ah_unicode ?ae)
      (ah_bigEndian ?ae) = Some (Inr (Some (str ''A''), \<lparr>buffer = ?E, offset = 100\<rparr>))"
    by code_simp
  have t: "ah_format ?ae \<noteq> 4" by simp
  from sentinel_mismatch_aborts [OF h' l' d f' s'] z n t
  have q: "readGameFileHeader \<lparr>buffer = ?E, offset = 64\<rparr> (ah_format ?ae) (ah_unicode ?ae)
      (ah_bigEndian ?ae) =
        Some (Inr (\<lparr>fileFlags = 5, compressedSize = 2, uncompressedSize = 3,
                     dataOffset = 64, id_h = 7, name = Some (str ''A'')\<rparr>,
                   \<lparr>buffer = ?E, offset = 100\<rparr>))"
    by blast
  from h c' f s have e1: "\<exists>ah r0 r1 r2.
      readArchiveHeader (newBufferReader ?B) = Inr (ah, r0) \<and>
      0 < ah_fileCount ah \<and> readUInt8 r0 = Inr (5, r1) \<and>
      readInt32LE (skip r1 3) = Inr (-2, r2)"
    by blast
  have o: "offset \<lparr>buffer = ?E, offset = 72\<rparr> = 72" by simp
  from h' d' f' s' o q have e2: "\<exists>ah r0 r1 r2.
      readArchiveHeader (newBufferReader ?E) = Inr (ah, r0) \<and>
      0 < ah_fileCount ah \<and> readUInt8 r0 = Inr (5, r1) \<and>
      readInt32LE (skip r1 3) = Inr (-1, r2) \<and> offset r2 = 72 \<and>
      readGameFileHeader r0 (ah_format ah) (ah_unicode ah) (ah_bigEndian ah) =
        Some (Inr (\<lparr>fileFlags = 5, compressedSize = 2, uncompressedSize = 3,
                     dataOffset = 64, id_h = 7, name = Some (str ''A'')\<rparr>,
                   \<lparr>buffer = ?E, offset = 100\<rparr>))"
    by blast
  let ?F = "sampleHeader 1 0x20 @ sampleEntryHeader4"
  let ?af = "\<lparr>ah_bigEndian = False, ah_bitBigEndian = False, ah_fileCount = 1,
        ah_headerSize = 64, ah_version = str ''00000001'', ah_fileHeaderSize = 32,
        ah_unicode = True, ah_rawFormat = 0x20, ah_format = 4, ah_extended = 0\<rparr>"
  have h4: "readArchiveHeader (newBufferReader ?F) = Inr (?af, \<lparr>buffer = ?F, offset = 64\<rparr>)"
    by code_simp
  have l4: "readGameFileHeaders_loop 0 \<lparr>buffer = ?F, offset = 64\<rparr> (ah_format ?af)
      (ah_unicode ?af) (ah_bigEndian ?af) [] = Some (Inr ([], \<lparr>buffer = ?F, offset = 64\<rparr>))"
    by simp
  have d4: "int 0 < ah_fileCount ?af" by simp
  have f4: "readUInt8 \<lparr>buffer = ?F, offset = 64\<rparr> = Inr (5, \<lparr>buffer = ?F, offset = 65\<rparr>)"
    by code_simp
  have s4: "readInt32LE (skip \<lparr>buffer = ?F, offset = 65\<rparr> 3)
      = Inr (-1, \<lparr>buffer = ?F, offset = 72\<rparr>)"
    by code_simp
  have z4: "readSizesAndOffset \<lparr>buffer = ?F, offset = 72\<rparr> (ah_format ?af)
      = Inr ((2, -1, 64, -1), \<lparr>buffer = ?F, offset = 84\<rparr>)"
    by code_simp
  have n4: "readNameField \<lparr>buffer = ?F, offset = 84\<rparr> (ah_format ?af) (ah_unicode ?af)
      (ah_bigEndian ?af) = Some (Inr (Some (str ''B''), \<lparr>buffer = ?F, offset = 88\<rparr>))"
    by code_simp
  have i4: "readInt32LE \<lparr>buffer = ?F, offset = 88\<rparr> = Inr (9, \<lparr>buffer = ?F, offset = 92\<rparr>)"
    by code_simp
  have j4: "readInt32LE \<lparr>buffer = ?F, offset = 92\<rparr> = Inr (0, \<lparr>buffer = ?F, offset = 96\<rparr>)"
    by code_simp
  have t4: "ah_format ?af = 4" by simp
  from sentinel_mismatch_aborts [OF h4 l4 d4 f4 s4] z4 n4 t4 i4 j4
  have q4: "readGameFileHeader \<lparr>buffer = ?F, offset = 64\<rparr> (ah_format ?af) (ah_unicode ?af)
      (ah_bigEndian ?af) =
        Some (Inr (\<lparr>fileFlags = 5, compressedSize = 2, uncompressedSize = -1,
                     dataOffset = 64, id_h = 9, name = Some (str ''B'')\<rparr>,
                   \<lparr>buffer = ?F, offset = 96\<rparr>))"
    by blast
  from h4 t4 f4 s4 q4 have e3: "\<exists>ah r0 r1 r2.
      readArchiveHeader (newBufferReader ?F) = Inr (ah, r0) \<and>
      ah_format ah = 4 \<and> readUInt8 r0 = Inr (5, r1) \<and>
      readInt32LE (skip r1 3) = Inr (-1, r2) \<and>
      readGameFileHeader r0 (ah_format ah) (ah_unicode ah) (ah_bigEndian ah) =
        Some (Inr (\<lparr>fileFlags = 5, compressedSize = 2, uncompressedSize = -1,
                     dataOffset = 64, id_h = 9, name = Some (str ''B'')\<rparr>,
                   \<lparr>buffer = ?F, offset = 96\<rparr>))"
    by blast
  from e1 p e2 e3 show ?thesis by blast
qed

text \<open>
  C6 as the specification states it fails: an archive of one entry whose field after the flag byte and
  the three skipped bytes is \<open>-1\<close> is parsed to the end.
\<close>

theorem sentinel_counterexample:
  "(\<exists>ah r0 r1 r2.
      readArchiveHeader (newBufferReader
        (sampleHeader 1 0 @ [5, 0, 0, 0, 0xFF, 0xFF, 0xFF, 0xFF,
                             0, 0, 0, 0, 0, 0, 0, 0, 0, 0, 0, 0])) = Inr (ah, r0) \<and>
      readUInt8 r0 = Inr (5, r1) \<and> readInt32LE (skip r1 3) = Inr (-1, r2)) \<and>
   (\<exists>sf. parseSaveFile
        (sampleHeader 1 0 @ [5, 0, 0, 0, 0xFF, 0xFF, 0xFF, 0xFF,
                             0, 0, 0, 0, 0, 0, 0, 0, 0, 0, 0, 0]) = Some (Inr sf)) \<and>
   parseSaveFile
        (sampleHeader 1 0 @ [5, 0, 0, 0, 0xFF, 0xFF, 0xFF, 0xFF,
                             0, 0, 0, 0, 0, 0, 0, 0, 0, 0, 0, 0])
     \<noteq> Some (Inl UnknownTableFormat)"
proof -
  let ?B = "sampleHeader 1 0 @ [5, 0, 0, 0, 0xFF, 0xFF, 0xFF, 0xFF,
                                0, 0, 0, 0, 0, 0, 0, 0, 0, 0, 0, 0]"
  let ?ah = "\<lparr>ah_bigEndian = False, ah_bitBigEndian = False, ah_fileCount = 1,
        ah_headerSize = 64, ah_version = str ''00000001'', ah_fileHeaderSize = 32,
        ah_unicode = True, ah_rawFormat = 0, ah_format = 0, ah_extended = 0\<rparr>"
  let ?h = "\<lparr>fileFlags = 5, compressedSize = 0, uncompressedSize = - 1,
        dataOffset = 0, id_h = - 1, name = None\<rparr>"
  have h: "readArchiveHeader (newBufferReader ?B) = Inr (?ah, \<lparr>buffer = ?B, offset = 64\<rparr>)"
    by code_simp
  have f: "readUInt8 \<lparr>buffer = ?B, offset = 64\<rparr> = Inr (5, \<lparr>buffer = ?B, offset = 65\<rparr>)"
    by code_simp
  have s: "readInt32LE (skip \<lparr>buffer = ?B, offset = 65\<rparr> 3)
      = Inr (-1, \<lparr>buffer = ?B, offset = 72\<rparr>)"
    by code_simp
  have p: "parseSaveFile ?B =
      Some (Inr \<lparr>bigEndian = False, bitBigEndian = False, fileCount = 1,
          headerSize = 64, version = str ''00000001'', fileHeaderSize = 32, unicode = True,
          rawFormat = 0, format = 0, extended = 0, gameFileHeaders = [?h],
          gameFiles = [\<lparr>header = ?h, data = []\<rparr>], saves = [], buffer_sf = ?B\<rparr>)"
    by code_simp
  from h f s have e1: "\<exists>ah r0 r1 r2.
      readArchiveHeader (newBufferReader ?B) = Inr (ah, r0) \<and>
      readUInt8 r0 = Inr (5, r1) \<and> readInt32LE (skip r1 3) = Inr (-1, r2)"
    by blast
  from p have e2: "\<exists>sf. parseSaveFile ?B = Some (Inr sf)" by blast
  from p have e3: "parseSaveFile ?B \<noteq> Some (Inl UnknownTableFormat)" by simp
  from e1 e2 e3 show ?thesis by blast
qed

section \<open>The stats locator\<close>

lemma upt_8: "[0..<8] = [0, 1, 2, 3, 4, 5, 6, 7]"
  by (simp add: upt_rec)

lemma spec_attributes_unfold:
  "spec_attributes d i =
     [uint (d ! nat i), uint (d ! (nat i + 4)), uint (d ! (nat i + 8)), uint (d ! (nat i + 12)),
      uint (d ! (nat i + 16)), uint (d ! (nat i + 20)), uint (d ! (nat i + 24)),
      uint (d ! (nat i + 28))]"
  by (simp add: spec_attributes_def upt_8)

text \<open>Inside the scan bound every read of the \<open>try\<close> block is inside the payload.\<close>

lemma readPotentialStats_in_bound:
  assumes "0 \<le> i" and "i < int (length d) - 50"
  shows "readPotentialStats d i = Inr (spec_attributes d i, spec_levelField d i)"
proof -
  have rd: "Buffer_readUInt8 d (i + int k) = Inr (uint (d ! (nat i + k)))" if "k < 50" for k
    using assms that by (simp add: Buffer_readUInt8_def nat_add_distrib)
  have r0: "Buffer_readUInt8 d i = Inr (uint (d ! nat i))"
    using rd [of 0] by simp
  from assms have n44: "nat (i + 44) = nat i + 44" by simp
  have r16: "Buffer_readUInt16LE d (i + 44) = Inr (spec_levelField d i)"
    unfolding Buffer_readUInt16LE_def spec_levelField_def n44 using assms
    by (simp add: add.commute)
  show ?thesis
    unfolding readPotentialStats_def ebind_def spec_attributes_unfold
    using r0 rd [of 4] rd [of 8] rd [of 12] rd [of 16] rd [of 20] rd [of 24] rd [of 28] r16
    by simp
qed

lemma findStats_loop_step:
  assumes "0 \<le> i" and "i < spec_scanBound d"
  shows "findStats_loop d lvl i =
           (if spec_isStatsBlock d lvl i then Some (i, spec_attributes d i)
            else findStats_loop d lvl (i + 1))"
proof -
  from assms have b: "i < min 120000 (int (length d) - 50)" and c: "i < int (length d) - 50"
    by (simp_all add: spec_scanBound_def)
  have s: "foldl (+) 0 (spec_attributes d i) = sum_list (spec_attributes d i)"
    by (simp add: spec_attributes_unfold)
  show ?thesis
    by (subst findStats_loop.simps)
       (simp only: b if_True readPotentialStats_in_bound [OF assms(1) c] sum.case prod.case s
          spec_isStatsBlock_def)
qed

lemma findStats_loop_end:
  "\<not> i < spec_scanBound d \<Longrightarrow> findStats_loop d lvl i = None"
  by (subst findStats_loop.simps) (auto simp: spec_scanBound_def)

lemma findStats_loop_None:
  "0 \<le> i \<Longrightarrow>
   findStats_loop d lvl i = None \<longleftrightarrow>
     (\<forall>j. i \<le> j \<and> j < spec_scanBound d \<longrightarrow> \<not> spec_isStatsBlock d lvl j)"
proof (induction d lvl i rule: findStats_loop.induct)
  case (1 d lvl i)
  show ?case
  proof (cases "i < spec_scanBound d")
    case False
    then show ?thesis by (auto simp: findStats_loop_end)
  next
    case True
    note step = findStats_loop_step [OF "1.prems" True, of lvl]
    show ?thesis
    proof (cases "spec_isStatsBlock d lvl i")
      case m: True
      with True step show ?thesis by auto
    next
      case m: False
      from True have b: "i < min 120000 (int (length d) - 50)"
        by (simp add: spec_scanBound_def)
      from True have c: "i < int (length d) - 50" by (simp add: spec_scanBound_def)
      have s: "foldl (+) 0 (spec_attributes d i) = sum_list (spec_attributes d i)"
        by (simp add: spec_attributes_unfold)
      from m have n: "\<not> (foldl (+) 0 (spec_attributes d i) = lvl + 79 \<and> spec_levelField d i = lvl)"
        by (simp add: s spec_isStatsBlock_def)
      have ih: "findStats_loop d lvl (i + 1) = None \<longleftrightarrow>
          (\<forall>j. i + 1 \<le> j \<and> j < spec_scanBound d \<longrightarrow> \<not> spec_isStatsBlock d lvl j)"
        using "1.IH"(2) [OF b readPotentialStats_in_bound [OF "1.prems" c] refl n] "1.prems"
        by simp
      have "(\<forall>j. i \<le> j \<and> j < spec_scanBound d \<longrightarrow> \<not> spec_isStatsBlock d lvl j) \<longleftrightarrow>
          (\<forall>j. i + 1 \<le> j \<and> j < spec_scanBound d \<longrightarrow> \<not> spec_isStatsBlock d lvl j)"
      proof (intro iffI allI impI)
        fix j assume a: "\<forall>j. i \<le> j \<and> j < spec_scanBound d \<longrightarrow> \<not> spec_isStatsBlock d lvl j"
          and "i + 1 \<le> j \<and> j < spec_scanBound d"
        then show "\<not> spec_isStatsBlock d lvl j" by simp
      next
        fix j assume a: "\<forall>j. i + 1 \<le> j \<and> j < spec_scanBound d \<longrightarrow> \<not> spec_isStatsBlock d lvl j"
          and j: "i \<le> j \<and> j < spec_scanBound d"
        show "\<not> spec_isStatsBlock d lvl j"
        proof (cases "j = i")
          case True with m show ?thesis by simp
        next
          case False with j have "i + 1 \<le> j" by simp
          with a j show ?thesis by simp
        qed
      qed
      with m step ih show ?thesis by simp
    qed
  qed
qed

lemma findStats_loop_Some:
  "0 \<le> i \<Longrightarrow>
   findStats_loop d lvl i = Some (k, s) \<longleftrightarrow>
     (i \<le> k \<and> k < spec_scanBound d \<and> spec_isStatsBlock d lvl k \<and> s = spec_attributes d k \<and>
      (\<forall>j. i \<le> j \<and> j < k \<longrightarrow> \<not> spec_isStatsBlock d lvl j))"
proof (induction d lvl i rule: findStats_loop.induct)
  case (1 d lvl i)
  show ?case
  proof (cases "i < spec_scanBound d")
    case False
    then show ?thesis by (auto simp: findStats_loop_end)
  next
    case True
    note step = findStats_loop_step [OF "1.prems" True, of lvl]
    show ?thesis
    proof (cases "spec_isStatsBlock d lvl i")
      case m: True
      have "findStats_loop d lvl i = Some (k, s) \<longleftrightarrow> k = i \<and> s = spec_attributes d i"
        using m step by auto
      also have "\<dots> \<longleftrightarrow> (i \<le> k \<and> k < spec_scanBound d \<and> spec_isStatsBlock d lvl k \<and>
          s = spec_attributes d k \<and> (\<forall>j. i \<le> j \<and> j < k \<longrightarrow> \<not> spec_isStatsBlock d lvl j))"
        (is "?L \<longleftrightarrow> ?R")
      proof
        assume ?L
        with m True show ?R by auto
      next
        assume r: ?R
        with m have "k = i" by (cases "i < k") auto
        with r show ?L by simp
      qed
      finally show ?thesis .
    next
      case m: False
      from True have b: "i < min 120000 (int (length d) - 50)"
        by (simp add: spec_scanBound_def)
      from True have c: "i < int (length d) - 50" by (simp add: spec_scanBound_def)
      have sm: "foldl (+) 0 (spec_attributes d i) = sum_list (spec_attributes d i)"
        by (simp add: spec_attributes_unfold)
      from m have n: "\<not> (foldl (+) 0 (spec_attributes d i) = lvl + 79 \<and> spec_levelField d i = lvl)"
        by (simp add: sm spec_isStatsBlock_def)
      have ih: "findStats_loop d lvl (i + 1) = Some (k, s) \<longleftrightarrow>
          (i + 1 \<le> k \<and> k < spec_scanBound d \<and> spec_isStatsBlock d lvl k \<and>
           s = spec_attributes d k \<and> (\<forall>j. i + 1 \<le> j \<and> j < k \<longrightarrow> \<not> spec_isStatsBlock d lvl j))"
        using "1.IH"(2) [OF b readPotentialStats_in_bound [OF "1.prems" c] refl n] "1.prems"
        by simp
      have "(i + 1 \<le> k \<and> k < spec_scanBound d \<and> spec_isStatsBlock d lvl k \<and>
           s = spec_attributes d k \<and> (\<forall>j. i + 1 \<le> j \<and> j < k \<longrightarrow> \<not> spec_isStatsBlock d lvl j)) \<longleftrightarrow>
          (i \<le> k \<and> k < spec_scanBound d \<and> spec_isStatsBlock d lvl k \<and>
           s = spec_attributes d k \<and> (\<forall>j. i \<le> j \<and> j < k \<longrightarrow> \<not> spec_isStatsBlock d lvl j))"
        (is "?L \<longleftrightarrow> ?R")
      proof
        assume l: ?L
        have "\<not> spec_isStatsBlock d lvl j" if "i \<le> j \<and> j < k" for j
        proof (cases "j = i")
          case True with m show ?thesis by simp
        next
          case False with that have "i + 1 \<le> j \<and> j < k" by simp
          with l show ?thesis by blast
        qed
        with l show ?R by auto
      next
        assume r: ?R
        with m have "k \<noteq> i" by auto
        with r have "i + 1 \<le> k" by simp
        moreover have "\<not> spec_isStatsBlock d lvl j" if "i + 1 \<le> j \<and> j < k" for j
          using r that by simp
        ultimately show ?L using r by blast
      qed
      with m step ih show ?thesis by simp
    qed
  qed
qed

text \<open>
  C2. The scan of \<open>getCharacterStats\<close> tries the offsets \<open>0, 1, 2, ...\<close> below
  \<open>min(120000, payloadLength - 50)\<close>. It returns offset \<open>i\<close> (with the eight attributes read
  there) exactly when \<open>i\<close> is below that bound, the attributes at \<open>i, i + 4, ..., i + 28\<close> sum to
  the header level plus 79, the 16-bit field at \<open>i + 44\<close> equals the header level, and no lower
  offset passes the same test; it returns nothing (\<open>None\<close>, the \<open>null\<close> of the source)
  exactly when no offset below the bound passes the test. It always returns one or the
  other, never an error.
\<close>

theorem findStats_lowest_match:
  "(findStats payload headerLevel = Some (i, sts) \<longleftrightarrow>
      (0 \<le> i \<and> i < spec_scanBound payload \<and> spec_isStatsBlock payload headerLevel i \<and>
       sts = spec_attributes payload i \<and>
       (\<forall>j. 0 \<le> j \<and> j < i \<longrightarrow> \<not> spec_isStatsBlock payload headerLevel j))) \<and>
   (findStats payload headerLevel = None \<longleftrightarrow>
      (\<forall>j. 0 \<le> j \<and> j < spec_scanBound payload \<longrightarrow> \<not> spec_isStatsBlock payload headerLevel j))"
  unfolding findStats_def
  using findStats_loop_Some [of 0 payload headerLevel i sts]
    findStats_loop_None [of 0 payload headerLevel]
  by simp

theorem findStats_lowest_match_witness:
  "findStats samplePayload 0 = Some (44, [10, 10, 10, 10, 10, 10, 10, 9]) \<and>
   44 < spec_scanBound samplePayload \<and>
   spec_isStatsBlock samplePayload 0 44 \<and>
   \<not> spec_isStatsBlock samplePayload 0 43 \<and>
   findStats (replicate 64 0) 0 = None \<and>
   \<not> spec_isStatsBlock (replicate 64 0) 0 7"
proof -
  have f: "findStats samplePayload 0 = Some (44, [10, 10, 10, 10, 10, 10, 10, 9])"
    by code_simp
  have n: "findStats (replicate 64 0) 0 = None"
    by code_simp
  have b: "(7::int) < spec_scanBound (replicate 64 0)"
    by (simp add: spec_scanBound_def)
  from findStats_lowest_match [of samplePayload 0 44 "[10, 10, 10, 10, 10, 10, 10, 9]"] f
  have "44 < spec_scanBound samplePayload" "spec_isStatsBlock samplePayload 0 44"
    "\<not> spec_isStatsBlock samplePayload 0 43"
    by simp_all
  moreover from findStats_lowest_match [of "replicate 64 0" 0] n b
  have "\<not> spec_isStatsBlock (replicate 64 0) 0 7"
    by simp
  ultimately show ?thesis using f n by simp
qed

section \<open>Writes and the regions they leave alone\<close>

lemma region_length: "length (region buf p n) = min n (length buf - p)"
  by (simp add: region_def)

lemma region_nth: "i < n \<Longrightarrow> p + i < length buf \<Longrightarrow> region buf p n ! i = buf ! (p + i)"
  by (simp add: region_def)

lemma region_cong:
  assumes len: "length a = length b"
    and eq: "\<And>n. p \<le> n \<Longrightarrow> n < p + k \<Longrightarrow> n < length a \<Longrightarrow> a ! n = b ! n"
  shows "region a p k = region b p k"
proof (rule nth_equalityI)
  show "length (region a p k) = length (region b p k)"
    using len by (simp add: region_length)
next
  fix i assume "i < length (region a p k)"
  then have "i < k \<and> i < length a - p" by (simp add: region_length)
  then have i: "i < k" "p + i < length a" by linarith+
  with len have "region a p k ! i = a ! (p + i)" "region b p k ! i = b ! (p + i)"
    by (simp_all add: region_nth)
  with eq [of "p + i"] i show "region a p k ! i = region b p k ! i" by simp
qed

lemma sameOutside_refl: "sameOutside W a a"
  by (simp add: sameOutside_def)

lemma sameOutside_trans:
  "sameOutside W a b \<Longrightarrow> sameOutside W' b c \<Longrightarrow> sameOutside (W \<union> W') a c"
  by (auto simp: sameOutside_def)

lemma sameOutside_mono: "sameOutside W a b \<Longrightarrow> W \<subseteq> W' \<Longrightarrow> sameOutside W' a b"
  by (auto simp: sameOutside_def)

lemma sameOutside_length: "sameOutside W a b \<Longrightarrow> length b = length a"
  by (simp add: sameOutside_def)

lemma sameOutside_nth: "sameOutside W a b \<Longrightarrow> n < length a \<Longrightarrow> n \<notin> W \<Longrightarrow> b ! n = a ! n"
  by (simp add: sameOutside_def)

lemma sameOutside_region:
  assumes "sameOutside W a b" and "\<And>n. p \<le> n \<Longrightarrow> n < p + k \<Longrightarrow> n \<notin> W"
  shows "region b p k = region a p k"
proof (rule region_cong)
  show "length b = length a" using assms(1) by (rule sameOutside_length)
next
  fix n assume "p \<le> n" "n < p + k" "n < length b"
  with assms show "b ! n = a ! n"
    by (simp add: sameOutside_def)
qed

text \<open>
  \<open>Buffer.copy\<close> at a position that is not negative never raises, changes nothing outside
  the range it writes, and leaves the source in that range when the range is inside the
  target.
\<close>

lemma Buffer_copy_spec:
  assumes "0 \<le> p"
  shows "\<exists>t'. Buffer_copy src tgt p = Inr t' \<and>
           sameOutside {nat p ..< nat p + length src} tgt t' \<and>
           (nat p + length src \<le> length tgt \<longrightarrow> region t' (nat p) (length src) = src)"
proof (cases "int (length tgt) \<le> p")
  case True
  with assms have "Buffer_copy src tgt p = Inr tgt" by (simp add: Buffer_copy_def)
  moreover have "region tgt (nat p) (length src) = src" if "nat p + length src \<le> length tgt"
  proof -
    from True assms that have "length src = 0" by linarith
    then show ?thesis by (simp add: region_def)
  qed
  ultimately show ?thesis by (simp add: sameOutside_refl)
next
  case False
  define q where "q = nat p"
  define n where "n = min (length src) (length tgt - q)"
  define t' where "t' = take q tgt @ take n src @ drop (q + n) tgt"
  from False assms have q: "q < length tgt" by (simp add: q_def)
  have c: "Buffer_copy src tgt p = Inr t'"
    using False assms by (simp add: Buffer_copy_def Let_def t'_def n_def q_def)
  have n: "n \<le> length src" "q + n \<le> length tgt" using q by (simp_all add: n_def)
  have len: "length t' = length tgt" using q n by (simp add: t'_def)
  have same: "sameOutside {q ..< q + length src} tgt t'"
    unfolding sameOutside_def
  proof (intro conjI allI impI)
    show "length tgt = length t'" using len by simp
  next
    fix m assume m: "m < length tgt \<and> m \<notin> {q ..< q + length src}"
    show "tgt ! m = t' ! m"
    proof (cases "m < q")
      case True
      with q show ?thesis by (simp add: t'_def nth_append)
    next
      case False
      with m have "q + length src \<le> m" by simp
      with n have ge: "q + n \<le> m" by simp
      from False ge have a: "\<not> m < q" "\<not> m - q < n" "m - q - n = m - (q + n)"
        by linarith+
      from q n have l: "length (take q tgt) = q" "length (take n src) = n" by simp_all
      have "t' ! m = drop (q + n) tgt ! (m - (q + n))"
        unfolding t'_def nth_append l using a by simp
      also from ge m have "\<dots> = tgt ! m" by simp
      finally show ?thesis by simp
    qed
  qed
  have "region t' q (length src) = src" if "q + length src \<le> length tgt"
  proof -
    from that have "n = length src" by (simp add: n_def)
    with q show ?thesis by (simp add: region_def t'_def)
  qed
  with c same show ?thesis unfolding q_def by blast
qed

lemma Buffer_set_sameOutside: "sameOutside {nat i} buf (Buffer_set buf i v)"
  by (auto simp: Buffer_set_def sameOutside_def)

lemma Buffer_set_nth:
  "0 \<le> i \<Longrightarrow> i < int (length buf) \<Longrightarrow> Buffer_set buf i v ! nat i = v"
  by (simp add: Buffer_set_def)

lemma Buffer_slice_region:
  "0 \<le> s \<Longrightarrow> 0 \<le> n \<Longrightarrow> Buffer_slice buf s (s + n) = region buf (nat s) (nat n)"
  by (simp add: Buffer_slice_nonneg region_def)

section \<open>The checksum engine\<close>

lemma Buffer_slice_region_to:
  "0 \<le> s \<Longrightarrow> s \<le> e \<Longrightarrow> Buffer_slice buf s e = region buf (nat s) (nat (e - s))"
  using Buffer_slice_region [of s "e - s" buf] by simp

lemma Buffer_copy_same:
  assumes "0 \<le> p" and "nat p + length src \<le> length tgt"
    and "region tgt (nat p) (length src) = src"
  shows "Buffer_copy src tgt p = Inr tgt"
proof (cases "int (length tgt) \<le> p")
  case True
  with assms show ?thesis by (simp add: Buffer_copy_def)
next
  case False
  from assms(2) have n: "min (length src) (length tgt - nat p) = length src" by simp
  have a: "take (length src) (drop (nat p) tgt) = src"
    using assms(3) by (simp add: region_def)
  have b: "drop (nat p + length src) tgt = drop (length src) (drop (nat p) tgt)"
    by (simp add: add.commute)
  have "take (nat p) tgt @ take (length src) src @ drop (nat p + length src) tgt
      = take (nat p) tgt @ (take (length src) (drop (nat p) tgt)
          @ drop (length src) (drop (nat p) tgt))"
    by (simp only: a b take_all order_refl)
  also have "\<dots> = take (nat p) tgt @ drop (nat p) tgt"
    by (simp only: append_take_drop_id)
  also have "\<dots> = tgt" by simp
  finally show ?thesis
    using False assms(1) by (simp add: Buffer_copy_def Let_def n)
qed

lemma checksumWindows_iff:
  "n \<in> checksumWindows i \<longleftrightarrow> (\<exists>j. i \<le> j \<and> j < 10 \<and> checksumPos j \<le> n \<and> n < checksumPos j + 16)"
  by (auto simp: checksumWindows_def)

lemma checksumWindows_Suc:
  assumes "i < 10"
  shows "checksumWindows i = {checksumPos i ..< checksumPos i + 16} \<union> checksumWindows (Suc i)"
proof (intro set_eqI iffI)
  fix n assume "n \<in> checksumWindows i"
  then obtain j where j: "i \<le> j" "j < 10" "checksumPos j \<le> n" "n < checksumPos j + 16"
    unfolding checksumWindows_iff by blast
  show "n \<in> {checksumPos i ..< checksumPos i + 16} \<union> checksumWindows (Suc i)"
  proof (cases "j = i")
    case True
    with j show ?thesis by simp
  next
    case False
    with j have "Suc i \<le> j" by simp
    with j have "n \<in> checksumWindows (Suc i)" unfolding checksumWindows_iff by blast
    then show ?thesis by simp
  qed
next
  fix n assume "n \<in> {checksumPos i ..< checksumPos i + 16} \<union> checksumWindows (Suc i)"
  then consider (a) "checksumPos i \<le> n \<and> n < checksumPos i + 16"
    | (b) "n \<in> checksumWindows (Suc i)"
    by auto
  then show "n \<in> checksumWindows i"
  proof cases
    case a
    with assms show ?thesis unfolding checksumWindows_iff by blast
  next
    case b
    then obtain j where "Suc i \<le> j" "j < 10" "checksumPos j \<le> n" "n < checksumPos j + 16"
      unfolding checksumWindows_iff by blast
    moreover from this have "i \<le> j" by simp
    ultimately show ?thesis unfolding checksumWindows_iff by blast
  qed
qed

text \<open>The data of a slot lies between its own checksum and the next one.\<close>

lemma slotData_not_checksum:
  assumes "slotDataPos j \<le> n" and "n < slotDataPos j + 2621440"
  shows "\<not> (checksumPos k \<le> n \<and> n < checksumPos k + 16)"
proof (cases "k \<le> j")
  case True
  then have "k * 2621456 \<le> j * 2621456" by simp
  with assms show ?thesis by (simp add: slotDataPos_def checksumPos_def)
next
  case False
  then have "(j + 1) * 2621456 \<le> k * 2621456" by simp
  with assms show ?thesis by (simp add: slotDataPos_def checksumPos_def)
qed

lemma checksum_not_other_checksum:
  assumes "checksumPos j \<le> n" and "n < checksumPos j + 16" and "j \<noteq> k"
  shows "\<not> (checksumPos k \<le> n \<and> n < checksumPos k + 16)"
proof (cases "k < j")
  case True
  then have "(k + 1) * 2621456 \<le> j * 2621456" by simp
  with assms show ?thesis by (simp add: checksumPos_def)
next
  case False
  with assms have "(j + 1) * 2621456 \<le> k * 2621456" by simp
  with assms show ?thesis by (simp add: checksumPos_def)
qed

lemma checksumPos_le: "j < 10 \<Longrightarrow> checksumPos j + 2621456 \<le> checksumPos 10"
proof -
  assume "j < 10"
  then have "(j + 1) * 2621456 \<le> 10 * 2621456" by simp
  then show ?thesis by (simp add: checksumPos_def)
qed

text \<open>
  One round of the loop: the two slices are the data and the stored checksum of slot
  \<open>i\<close>, and the next round starts at the positions of slot \<open>i + 1\<close>.
\<close>

lemma recalculateChecksums_loop_step:
  assumes md5: "\<And>xs. length (md5 xs) = 16" and i: "i < 10"
  shows "recalculateChecksums_loop md5 i (int (slotDataPos i)) (int (checksumPos i)) b =
     (case (if md5 (region b (slotDataPos i) 2621440) \<noteq> region b (checksumPos i) 16
            then Buffer_copy (md5 (region b (slotDataPos i) 2621440)) b (int (checksumPos i))
            else Inr b) of
        Inl e \<Rightarrow> Inl e
      | Inr b' \<Rightarrow>
          recalculateChecksums_loop md5 (Suc i) (int (slotDataPos (Suc i)))
            (int (checksumPos (Suc i))) b')"
proof -
  have d: "Buffer_slice b (int (slotDataPos i)) (int (slotDataPos i) + 2621439 + 1)
      = region b (slotDataPos i) 2621440"
    using Buffer_slice_region [of "int (slotDataPos i)" 2621440 b] by (simp add: add.assoc)
  have c: "Buffer_slice b (int (checksumPos i)) (int (checksumPos i) + 15 + 1)
      = region b (checksumPos i) 16"
    using Buffer_slice_region [of "int (checksumPos i)" 16 b] by (simp add: add.assoc)
  have cc: "Buffer_slice (region b (checksumPos i) 16) 0 (int (length (md5 xs)))
      = region b (checksumPos i) 16" for xs
    using Buffer_slice_region [of 0 16 "region b (checksumPos i) 16"]
    by (simp add: md5 region_def)
  have n: "int (slotDataPos i) + 2621456 = int (slotDataPos (Suc i))"
    "int (checksumPos i) + 2621456 = int (checksumPos (Suc i))"
    by (simp_all add: slotDataPos_def checksumPos_def)
  show ?thesis
    by (subst recalculateChecksums_loop.simps)
       (simp only: i if_True Let_def d c cc n Suc_eq_plus1)
qed

lemma recalculateChecksums_loop_end:
  "recalculateChecksums_loop md5 10 sdi ci b = Inr b"
  by (subst recalculateChecksums_loop.simps) simp

lemma recalculateChecksums_loop_spec:
  assumes md5: "\<And>xs. length (md5 xs) = 16"
  shows "i \<le> 10 \<Longrightarrow> checksumPos 10 \<le> length b \<Longrightarrow>
     \<exists>out. recalculateChecksums_loop md5 i (int (slotDataPos i)) (int (checksumPos i)) b = Inr out \<and>
       sameOutside (checksumWindows i) b out \<and>
       (\<forall>j. i \<le> j \<and> j < 10 \<longrightarrow>
          region out (checksumPos j) 16 = md5 (region b (slotDataPos j) 2621440))"
proof (induction "10 - i" arbitrary: i b)
  case 0
  then have "i = 10" by simp
  then show ?case
    by (auto simp: recalculateChecksums_loop_end sameOutside_refl)
next
  case (Suc k)
  then have i: "i < 10" by simp
  define new where "new = md5 (region b (slotDataPos i) 2621440)"
  have newlen: "length new = 16" by (simp add: new_def md5)
  from i Suc.prems checksumPos_le [of i]
  have inside: "nat (int (checksumPos i)) + length new \<le> length b"
    by (simp add: newlen)
  have "\<exists>b'. (if new \<noteq> region b (checksumPos i) 16
               then Buffer_copy new b (int (checksumPos i)) else Inr b) = Inr b' \<and>
          sameOutside {checksumPos i ..< checksumPos i + 16} b b' \<and>
          region b' (checksumPos i) 16 = new"
  proof (cases "new \<noteq> region b (checksumPos i) 16")
    case True
    from Buffer_copy_spec [of "int (checksumPos i)" new b] inside
    obtain t' where "Buffer_copy new b (int (checksumPos i)) = Inr t'"
      "sameOutside {checksumPos i ..< checksumPos i + 16} b t'"
      "region t' (checksumPos i) 16 = new"
      by (auto simp: newlen)
    with True show ?thesis by simp
  next
    case False
    then show ?thesis by (simp add: sameOutside_refl)
  qed
  then obtain b' where step: "(if new \<noteq> region b (checksumPos i) 16
               then Buffer_copy new b (int (checksumPos i)) else Inr b) = Inr b'"
    and so: "sameOutside {checksumPos i ..< checksumPos i + 16} b b'"
    and written: "region b' (checksumPos i) 16 = new"
    by blast
  from so have len': "length b' = length b" by (rule sameOutside_length)
  from Suc.hyps(2) have k: "k = 10 - Suc i" by simp
  from i have si: "Suc i \<le> 10" by simp
  from Suc.prems(2) len' have "checksumPos 10 \<le> length b'" by simp
  from Suc.hyps(1) [OF k si this]
  obtain out where
    run: "recalculateChecksums_loop md5 (Suc i) (int (slotDataPos (Suc i)))
            (int (checksumPos (Suc i))) b' = Inr out"
    and so': "sameOutside (checksumWindows (Suc i)) b' out"
    and rest: "\<forall>j. Suc i \<le> j \<and> j < 10 \<longrightarrow>
          region out (checksumPos j) 16 = md5 (region b' (slotDataPos j) 2621440)"
    by blast
  have r: "recalculateChecksums_loop md5 i (int (slotDataPos i)) (int (checksumPos i)) b = Inr out"
    unfolding recalculateChecksums_loop_step [of md5 i b, OF md5 i] new_def [symmetric] step
    using run by simp
  have s: "sameOutside (checksumWindows i) b out"
    using sameOutside_trans [OF so so'] checksumWindows_Suc [OF i] by simp
  have c: "region out (checksumPos j) 16 = md5 (region b (slotDataPos j) 2621440)"
    if j: "i \<le> j \<and> j < 10" for j
  proof (cases "j = i")
    case True
    have "region out (checksumPos i) 16 = region b' (checksumPos i) 16"
    proof (rule sameOutside_region [OF so'])
      fix n assume "checksumPos i \<le> n" "n < checksumPos i + 16"
      then show "n \<notin> checksumWindows (Suc i)"
        using checksum_not_other_checksum [of i n]
        by (auto simp: checksumWindows_iff)
    qed
    with written True show ?thesis by (simp add: new_def)
  next
    case False
    with j have "Suc i \<le> j \<and> j < 10" by simp
    with rest have "region out (checksumPos j) 16 = md5 (region b' (slotDataPos j) 2621440)"
      by simp
    moreover have "region b' (slotDataPos j) 2621440 = region b (slotDataPos j) 2621440"
    proof (rule sameOutside_region [OF so])
      fix n assume "slotDataPos j \<le> n" "n < slotDataPos j + 2621440"
      then show "n \<notin> {checksumPos i ..< checksumPos i + 16}"
        using slotData_not_checksum [of j n i] by simp
    qed
    ultimately show ?thesis by simp
  qed
  from r s c show ?case by blast
qed

lemma checksumWindows_below: "n \<in> checksumWindows i \<Longrightarrow> n < 26215328"
proof -
  assume "n \<in> checksumWindows i"
  then obtain j where j: "j < 10" "n < checksumPos j + 16"
    unfolding checksumWindows_iff by blast
  from checksumPos_le [OF j(1)] j(2) show ?thesis by (simp add: checksumPos_def)
qed

text \<open>
  What one run does to a buffer that holds all eleven checksum fields: only those fields
  change, and each ends up as the digest of its region of the buffer given.
\<close>

lemma recalculateChecksums_spec:
  assumes md5: "\<And>xs. length (md5 xs) = 16" and len: "26215344 \<le> length b"
  shows "\<exists>out. recalculateChecksums md5 b = Inr out \<and>
     sameOutside (checksumWindows 0 \<union> {26215328 ..< 26215344}) b out \<and>
     (\<forall>j. j < 10 \<longrightarrow> region out (checksumPos j) 16 = md5 (region b (slotDataPos j) 2621440)) \<and>
     region out 26215328 16 = md5 (region b 26215344 393216)"
proof -
  from len have l10: "checksumPos 10 \<le> length b" by (simp add: checksumPos_def)
  have pos0: "int (slotDataPos 0) = 784" "int (checksumPos 0) = 768"
    by (simp_all add: slotDataPos_def checksumPos_def)
  from recalculateChecksums_loop_spec [of md5 0 b, OF md5 _ l10, unfolded pos0]
  obtain out1 where
    run: "recalculateChecksums_loop md5 0 784 768 b = Inr out1"
    and so1: "sameOutside (checksumWindows 0) b out1"
    and cs1: "\<forall>j. j < 10 \<longrightarrow>
        region out1 (checksumPos j) 16 = md5 (region b (slotDataPos j) 2621440)"
    by auto
  define new where "new = md5 (region out1 26215344 393216)"
  have newlen: "length new = 16" by (simp add: new_def md5)
  from so1 have len1: "length out1 = length b" by (rule sameOutside_length)
  have gen: "Buffer_slice out1 26215344 26608560 = region out1 26215344 393216"
    using Buffer_slice_region_to [of 26215344 26608560 out1] by simp
  from Buffer_copy_spec [of "0x019003A0" new out1] len len1
  obtain out where cp: "Buffer_copy new out1 0x019003A0 = Inr out"
    and so2: "sameOutside {26215328 ..< 26215344} out1 out"
    and wr: "region out 26215328 16 = new"
    by (auto simp: newlen)
  have r: "recalculateChecksums md5 b = Inr out"
    using cp by (simp add: recalculateChecksums_def ebind_def run Let_def gen new_def)
  have s: "sameOutside (checksumWindows 0 \<union> {26215328 ..< 26215344}) b out"
    by (rule sameOutside_trans [OF so1 so2])
  have g: "region out1 26215344 393216 = region b 26215344 393216"
  proof (rule sameOutside_region [OF so1])
    fix n :: nat assume "26215344 \<le> n"
    then show "n \<notin> checksumWindows 0" using checksumWindows_below [of n 0] by auto
  qed
  have c: "region out (checksumPos j) 16 = md5 (region b (slotDataPos j) 2621440)"
    if "j < 10" for j
  proof -
    have "region out (checksumPos j) 16 = region out1 (checksumPos j) 16"
    proof (rule sameOutside_region [OF so2])
      fix n assume "checksumPos j \<le> n" "n < checksumPos j + 16"
      with checksumPos_le [OF that] show "n \<notin> {26215328 ..< 26215344}"
        by (simp add: checksumPos_def)
    qed
    with cs1 that show ?thesis by simp
  qed
  from r s c wr g show ?thesis unfolding new_def by auto
qed

lemma slotData_untouched:
  assumes "sameOutside (checksumWindows 0 \<union> {26215328 ..< 26215344}) b out" and "j < 10"
  shows "region out (slotDataPos j) 2621440 = region b (slotDataPos j) 2621440"
proof (rule sameOutside_region [OF assms(1)])
  fix n assume n: "slotDataPos j \<le> n" "n < slotDataPos j + 2621440"
  have "n \<notin> checksumWindows 0"
    using slotData_not_checksum [OF n] unfolding checksumWindows_iff by blast
  moreover from n checksumPos_le [OF assms(2)] have "n < 26215328"
    by (simp add: slotDataPos_def checksumPos_def)
  ultimately show "n \<notin> checksumWindows 0 \<union> {26215328 ..< 26215344}" by simp
qed

lemma generalData_untouched:
  assumes "sameOutside (checksumWindows 0 \<union> {26215328 ..< 26215344}) b out"
  shows "region out 26215344 393216 = region b 26215344 393216"
proof (rule sameOutside_region [OF assms(1)])
  fix n :: nat assume "26215344 \<le> n"
  then show "n \<notin> checksumWindows 0 \<union> {26215328 ..< 26215344}"
    using checksumWindows_below [of n 0] by auto
qed

text \<open>A buffer whose eleven checksum fields are already right is left as it is.\<close>

lemma recalculateChecksums_loop_fix:
  assumes md5: "\<And>xs. length (md5 xs) = 16"
    and ok: "\<And>j. j < 10 \<Longrightarrow> region b (checksumPos j) 16 = md5 (region b (slotDataPos j) 2621440)"
  shows "i \<le> 10 \<Longrightarrow>
    recalculateChecksums_loop md5 i (int (slotDataPos i)) (int (checksumPos i)) b = Inr b"
proof (induction "10 - i" arbitrary: i)
  case 0
  then show ?case by (simp add: recalculateChecksums_loop_end)
next
  case (Suc k)
  then have i: "i < 10" and k: "k = 10 - Suc i" and si: "Suc i \<le> 10" by simp_all
  show ?case
    unfolding recalculateChecksums_loop_step [of md5 i b, OF md5 i]
    using ok [OF i] Suc.hyps(1) [OF k si] by simp
qed

lemma recalculateChecksums_fix:
  assumes md5: "\<And>xs. length (md5 xs) = 16" and len: "26215344 \<le> length b"
    and ok: "\<And>j. j < 10 \<Longrightarrow> region b (checksumPos j) 16 = md5 (region b (slotDataPos j) 2621440)"
    and gok: "region b 26215328 16 = md5 (region b 26215344 393216)"
  shows "recalculateChecksums md5 b = Inr b"
proof -
  have run: "recalculateChecksums_loop md5 0 784 768 b = Inr b"
    using recalculateChecksums_loop_fix [of md5 b 0, OF md5 ok]
    by (simp add: slotDataPos_def checksumPos_def)
  have gen: "Buffer_slice b 26215344 26608560 = region b 26215344 393216"
    using Buffer_slice_region_to [of 26215344 26608560 b] by simp
  have cp: "Buffer_copy (md5 (region b 26215344 393216)) b 0x019003A0 = Inr b"
    using Buffer_copy_same [of "0x019003A0" "md5 (region b 26215344 393216)" b] len gok
    by (simp add: md5)
  show ?thesis
    using cp by (simp add: recalculateChecksums_def ebind_def run Let_def gen)
qed

subsection \<open>The run on the sample buffer with stale checksums\<close>

lemma length_sampleStaleBuffer: "length sampleStaleBuffer = 26608560"
  by (simp add: sampleStaleBuffer_def)

lemma sampleStaleBuffer_slot0:
  "region sampleStaleBuffer 784 2621440 = [1, 2, 3] @ replicate 2621437 0"
  by (simp add: region_def sampleStaleBuffer_def)

lemma sampleStaleBuffer_zero:
  assumes "787 \<le> p" and "p + n \<le> 26215344"
  shows "region sampleStaleBuffer p n = replicate n 0"
proof -
  define front :: buffer where "front = replicate 784 0 @ [1, 2, 3]"
  define rest :: buffer where "rest = [7] @ replicate 393215 0"
  have f: "length front = 787" by (simp add: front_def)
  have b: "sampleStaleBuffer = front @ replicate 26214557 0 @ rest"
    by (simp add: sampleStaleBuffer_def front_def rest_def)
  from assms f have "drop p sampleStaleBuffer = replicate (26214557 - (p - 787)) 0 @ rest"
    by (simp add: b)
  moreover from assms have "n \<le> 26214557 - (p - 787)" by simp
  ultimately show ?thesis by (simp add: region_def min_def)
qed

lemma sampleStaleBuffer_checksum0: "region sampleStaleBuffer 768 16 = replicate 16 0"
  by (simp add: region_def sampleStaleBuffer_def)

lemma sampleStaleBuffer_general:
  "region sampleStaleBuffer 26215344 393216 = 7 # replicate 393215 0"
  by (simp add: region_def sampleStaleBuffer_def)

lemma sum_list_zeros: "sum_list (replicate n (0 :: byte)) = 0"
  by (induction n) simp_all

lemma sampleDigest_zero: "sampleDigest (replicate n 0) = replicate 16 0"
  by (simp add: sampleDigest_def sum_list_zeros)

text \<open>
  C1. On a buffer that holds all the checksum fields (the last one ends at byte 26215344),
  \<open>recalculateChecksums\<close> succeeds and returns a buffer of the same length that differs
  from the buffer given at most inside the eleven 16-byte checksum fields, and in which,
  for each of the ten slot windows, the 16 bytes before the data at \<open>0x310 + i * 2621456\<close>
  are the digest of the 2621440 bytes of data, which are the data of the buffer given; the
  16 bytes before the save-headers section are the digest of that section; and the 16
  bytes before the general-data region \<open>0x019003B0 .. 0x019603AF\<close> are the digest of that
  region, which is the region of the buffer given. (The save-headers section of the class
  constants and the general-data region of \<open>recalculateChecksums\<close> are the same bytes.) The
  slot digests are computed first and the section digest last; no checksum field lies
  inside a hashed region, so each digest is that of the data as it was before the run as
  well as after it. The digest is any function that returns 16 bytes.
\<close>

theorem recalculateChecksums_digests:
  assumes "\<And>xs. length (md5 xs) = 16" and "26215344 \<le> length buf"
  shows "\<exists>out. recalculateChecksums md5 buf = Inr out \<and> length out = length buf \<and>
     sameOutside (checksumWindows 0 \<union> {0x019003B0 - 16 ..< 0x019003B0}) buf out \<and>
     (\<forall>i. i < 10 \<longrightarrow>
        region out (0x310 + i * 2621456 - 16) 16 = md5 (region out (0x310 + i * 2621456) 2621440) \<and>
        region out (0x310 + i * 2621456) 2621440 = region buf (0x310 + i * 2621456) 2621440) \<and>
     region out (nat (SAVE_HEADERS_SECTION_OFFSET - CHECKSUM_LENGTH)) (nat CHECKSUM_LENGTH) =
       md5 (region out (nat SAVE_HEADERS_SECTION_OFFSET) (nat SAVE_HEADERS_SECTION_LENGTH)) \<and>
     region out (0x019003B0 - 16) 16 = md5 (region out 0x019003B0 (0x019603AF + 1 - 0x019003B0)) \<and>
     region out 0x019003B0 (0x019603AF + 1 - 0x019003B0) =
       region buf 0x019003B0 (0x019603AF + 1 - 0x019003B0)"
proof -
  from recalculateChecksums_spec [of md5 buf, OF assms]
  obtain out where r: "recalculateChecksums md5 buf = Inr out"
    and s: "sameOutside (checksumWindows 0 \<union> {26215328 ..< 26215344}) buf out"
    and c: "\<And>j. j < 10 \<Longrightarrow>
        region out (checksumPos j) 16 = md5 (region buf (slotDataPos j) 2621440)"
    and g: "region out 26215328 16 = md5 (region buf 26215344 393216)"
    by blast
  have d: "region out (0x310 + i * 2621456) 2621440 = region buf (0x310 + i * 2621456) 2621440"
    if "i < 10" for i
    using slotData_untouched [OF s that] by (simp add: slotDataPos_def)
  have c': "region out (0x310 + i * 2621456 - 16) 16
      = md5 (region out (0x310 + i * 2621456) 2621440)" if "i < 10" for i
    using c [OF that] slotData_untouched [OF s that]
    by (simp add: checksumPos_def slotDataPos_def)
  have e: "region out 26215344 393216 = region buf 26215344 393216"
    by (rule generalData_untouched [OF s])
  have g': "region out 26215328 16 = md5 (region out 26215344 393216)"
    using g e by simp
  have s': "sameOutside (checksumWindows 0 \<union> {0x019003B0 - 16 ..< 0x019003B0}) buf out"
    using s by simp
  from r sameOutside_length [OF s] s' c' d g' e show ?thesis
    by (auto simp: SAVE_HEADERS_SECTION_OFFSET_def SAVE_HEADERS_SECTION_LENGTH_def
        CHECKSUM_LENGTH_def)
qed

text \<open>
  The run on the sample buffer with stale checksums: the checksum of slot 0, sixteen
  zeros before the run, is written (the digest of the data is sixteen times the byte 6),
  the checksum of slot 9 is found up to date, the checksum of the save-headers section is
  written (sixteen times the byte 7), and the data stay as they were.
\<close>

theorem recalculateChecksums_digests_witness:
  "length (sampleDigest []) = 16 \<and>
   26215344 \<le> length sampleStaleBuffer \<and>
   region sampleStaleBuffer 768 16 = replicate 16 0 \<and>
   (\<exists>out. recalculateChecksums sampleDigest sampleStaleBuffer = Inr out \<and>
      length out = 26608560 \<and>
      region out 768 16 = replicate 16 6 \<and>
      region out 784 2621440 = [1, 2, 3] @ replicate 2621437 0 \<and>
      region out 23593872 16 = replicate 16 0 \<and>
      region out 23593888 2621440 = replicate 2621440 0 \<and>
      region out 26215328 16 = replicate 16 7 \<and>
      region out 26215344 393216 = 7 # replicate 393215 0 \<and>
      out ! 0 = sampleStaleBuffer ! 0 \<and> out \<noteq> sampleStaleBuffer)"
proof -
  have d: "length (sampleDigest xs) = 16" for xs by (simp add: sampleDigest_def)
  have l: "26215344 \<le> length sampleStaleBuffer" by (simp add: length_sampleStaleBuffer)
  from recalculateChecksums_digests [of sampleDigest sampleStaleBuffer, OF d l]
  obtain out where r: "recalculateChecksums sampleDigest sampleStaleBuffer = Inr out"
    and n: "length out = length sampleStaleBuffer"
    and f: "sameOutside (checksumWindows 0 \<union> {0x019003B0 - 16 ..< 0x019003B0})
              sampleStaleBuffer out"
    and c: "\<forall>i. i < 10 \<longrightarrow>
        region out (0x310 + i * 2621456 - 16) 16
          = sampleDigest (region out (0x310 + i * 2621456) 2621440) \<and>
        region out (0x310 + i * 2621456) 2621440
          = region sampleStaleBuffer (0x310 + i * 2621456) 2621440"
    and g: "region out (0x019003B0 - 16) 16
               = sampleDigest (region out 0x019003B0 (0x019603AF + 1 - 0x019003B0))"
    and e: "region out 0x019003B0 (0x019603AF + 1 - 0x019003B0) =
       region sampleStaleBuffer 0x019003B0 (0x019603AF + 1 - 0x019003B0)"
    by blast
  from c [rule_format, of 0]
  have d0: "region out 784 2621440 = [1, 2, 3] @ replicate 2621437 0"
    and c0: "region out 768 16 = sampleDigest (region out 784 2621440)"
    by (simp_all add: sampleStaleBuffer_slot0)
  from c0 have c0': "region out 768 16 = replicate 16 6"
    by (simp add: d0 sampleDigest_def sum_list_zeros)
  from c [rule_format, of 9]
  have d9: "region out 23593888 2621440 = replicate 2621440 0"
    and c9: "region out 23593872 16 = sampleDigest (region out 23593888 2621440)"
    by (simp_all add: sampleStaleBuffer_zero)
  from c9 have c9': "region out 23593872 16 = replicate 16 0"
    by (simp add: d9 sampleDigest_zero)
  from e have e': "region out 26215344 393216 = 7 # replicate 393215 0"
    by (simp add: sampleStaleBuffer_general)
  from g have g': "region out 26215328 16 = replicate 16 7"
    by (simp add: e' sampleDigest_def sum_list_zeros)
  from n have n': "length out = 26608560" by (simp add: length_sampleStaleBuffer)
  have "0 \<notin> checksumWindows 0 \<union> {0x019003B0 - 16 ..< (0x019003B0 :: nat)}"
    by (simp add: checksumWindows_iff checksumPos_def)
  with sameOutside_nth [OF f, of 0] have z: "out ! 0 = sampleStaleBuffer ! 0"
    by (simp add: length_sampleStaleBuffer)
  from c0' sampleStaleBuffer_checksum0 have ne: "out \<noteq> sampleStaleBuffer" by auto
  from d [of "[]"] l sampleStaleBuffer_checksum0 r n' c0' d0 c9' d9 g' e' z ne
  show ?thesis by blast
qed

text \<open>
  C5. On a buffer that holds all the checksum fields, a second run of
  \<open>recalculateChecksums\<close> on the result of the first returns that result unchanged.
\<close>

theorem recalculateChecksums_idempotent:
  assumes "\<And>xs. length (md5 xs) = 16" and "26215344 \<le> length buf"
  shows "\<exists>out. recalculateChecksums md5 buf = Inr out \<and> recalculateChecksums md5 out = Inr out"
proof -
  from recalculateChecksums_spec [of md5 buf, OF assms]
  obtain out where r: "recalculateChecksums md5 buf = Inr out"
    and s: "sameOutside (checksumWindows 0 \<union> {26215328 ..< 26215344}) buf out"
    and c: "\<And>j. j < 10 \<Longrightarrow>
        region out (checksumPos j) 16 = md5 (region buf (slotDataPos j) 2621440)"
    and g: "region out 26215328 16 = md5 (region buf 26215344 393216)"
    by blast
  from s assms(2) have len: "26215344 \<le> length out" by (simp add: sameOutside_length)
  have "recalculateChecksums md5 out = Inr out"
  proof (rule recalculateChecksums_fix [of md5 out, OF assms(1) len])
    fix j :: nat assume "j < 10"
    with c slotData_untouched [OF s]
    show "region out (checksumPos j) 16 = md5 (region out (slotDataPos j) 2621440)" by simp
  next
    from g generalData_untouched [OF s]
    show "region out 26215328 16 = md5 (region out 26215344 393216)" by simp
  qed
  with r show ?thesis by blast
qed

text \<open>
  The two runs on the sample buffer with stale checksums. The first run changes the
  buffer: it writes the checksum of slot 0 (its only-if-different test is true; that of
  slot 1, whose checksum is up to date, is false) and the checksum of the save-headers
  section. The second run, on the result, finds all ten slot checksums up to date and
  returns the buffer it was given.
\<close>

theorem recalculateChecksums_idempotent_witness:
  "length (sampleDigest []) = 16 \<and>
   26215344 \<le> length sampleStaleBuffer \<and>
   sampleDigest (region sampleStaleBuffer 784 2621440) = replicate 16 6 \<and>
   region sampleStaleBuffer 768 16 = replicate 16 0 \<and>
   sampleDigest (region sampleStaleBuffer 2622240 2621440) = replicate 16 0 \<and>
   region sampleStaleBuffer 2622224 16 = replicate 16 0 \<and>
   (\<exists>out. recalculateChecksums sampleDigest sampleStaleBuffer = Inr out \<and>
      out \<noteq> sampleStaleBuffer \<and>
      region out 768 16 = replicate 16 6 \<and>
      region out 26215328 16 = replicate 16 7 \<and>
      recalculateChecksums sampleDigest out = Inr out)"
proof -
  have d: "length (sampleDigest xs) = 16" for xs by (simp add: sampleDigest_def)
  have l: "26215344 \<le> length sampleStaleBuffer" by (simp add: length_sampleStaleBuffer)
  from recalculateChecksums_idempotent [of sampleDigest sampleStaleBuffer, OF d l]
  obtain out where r: "recalculateChecksums sampleDigest sampleStaleBuffer = Inr out"
    and r2: "recalculateChecksums sampleDigest out = Inr out"
    by blast
  from recalculateChecksums_spec [of sampleDigest sampleStaleBuffer, OF d l] r
  have c: "\<And>j. j < 10 \<Longrightarrow> region out (checksumPos j) 16
        = sampleDigest (region sampleStaleBuffer (slotDataPos j) 2621440)"
    and g: "region out 26215328 16 = sampleDigest (region sampleStaleBuffer 26215344 393216)"
    by auto
  have s0: "sampleDigest (region sampleStaleBuffer 784 2621440) = replicate 16 6"
    by (simp add: sampleStaleBuffer_slot0 sampleDigest_def sum_list_zeros)
  have s1: "sampleDigest (region sampleStaleBuffer 2622240 2621440) = replicate 16 0"
    by (simp add: sampleStaleBuffer_zero sampleDigest_zero)
  have k1: "region sampleStaleBuffer 2622224 16 = replicate 16 0"
    by (simp add: sampleStaleBuffer_zero)
  from c [of 0] s0 have c0: "region out 768 16 = replicate 16 6"
    by (simp add: checksumPos_def slotDataPos_def)
  from g have g': "region out 26215328 16 = replicate 16 7"
    by (simp add: sampleStaleBuffer_general sampleDigest_def sum_list_zeros)
  from c0 sampleStaleBuffer_checksum0 have ne: "out \<noteq> sampleStaleBuffer" by auto
  from d [of "[]"] l s0 sampleStaleBuffer_checksum0 s1 k1 r ne c0 g' r2
  show ?thesis by blast
qed
section \<open>Reading and writing character stats\<close>

subsection \<open>What a successful \<open>getCharacterStats\<close> tells\<close>

lemma slotOffsets_eq: "slotOffsets = map (\<lambda>k. 784 + int k * 2621456) [0..<10]"
  by (simp add: slotOffsets_def upt_rec)

lemma slotLengths_eq: "slotLengths = map (\<lambda>k. 2621440) [0..<10]"
  by (simp add: slotLengths_def upt_rec)

lemma array_get_slotOffsets:
  "array_get slotOffsets i = Some so \<longleftrightarrow> 0 \<le> i \<and> i \<le> 9 \<and> so = 784 + i * 2621456"
  unfolding array_get_def slotOffsets_eq by auto

lemma array_get_slotLengths:
  "array_get slotLengths i = Some sl \<longleftrightarrow> 0 \<le> i \<and> i \<le> 9 \<and> sl = 2621440"
  unfolding array_get_def slotLengths_eq by auto

lemma readAll_3:
  "readAll rd [a, b, c] = Inr vs \<Longrightarrow> \<exists>x y z. rd a = Inr x \<and> rd b = Inr y \<and> rd c = Inr z"
  by (auto split: sum.splits)

lemma statsRecord_InrD:
  assumes "statsRecord slotData slotIdx lvl so off sts = Inr cs"
  shows "44 \<le> off" and "statsOffset cs = so + off"
    and "hpOffsets cs = [so + off - 44, so + off - 40, so + off - 36]"
    and "fpOffsets cs = [so + off - 32, so + off - 28, so + off - 24]"
    and "staminaOffsets cs = [so + off - 16, so + off - 12, so + off - 8]"
    and "level cs = lvl"
proof -
  from assms obtain hpv stv fpv where
    h: "readAll (Buffer_readUInt16LE slotData) [off - 44, off - 40, off - 36] = Inr hpv"
    and cs: "cs = \<lparr>slotIndex = slotIdx, level = lvl, statsOffset = so + off,
          stats = toStatValues sts, hp = hpv, stamina = stv, fp = fpv,
          hpOffsets = [so + off - 44, so + off - 40, so + off - 36],
          staminaOffsets = [so + off - 16, so + off - 12, so + off - 8],
          fpOffsets = [so + off - 32, so + off - 28, so + off - 24]\<rparr>"
    unfolding statsRecord_def ebind_def by (auto split: sum.splits)
  from readAll_3 [OF h] obtain x where "Buffer_readUInt16LE slotData (off - 44) = Inr x"
    by blast
  then show "44 \<le> off" by (simp add: Buffer_readUInt16LE_def split: if_splits)
  from cs show "statsOffset cs = so + off"
    and "hpOffsets cs = [so + off - 44, so + off - 40, so + off - 36]"
    and "fpOffsets cs = [so + off - 32, so + off - 28, so + off - 24]"
    and "staminaOffsets cs = [so + off - 16, so + off - 12, so + off - 8]"
    and "level cs = lvl"
    by simp_all
qed

text \<open>
  A block that the scan finds in the first 44 bytes of the slot data has no room for the
  resource triples before it: their reads are at negative offsets and raise, and the outer
  \<open>catch\<close> of \<open>getCharacterStats\<close> returns \<open>null\<close>.
\<close>

lemma statsRecord_before_44:
  "off < 44 \<Longrightarrow> statsRecord slotData slotIdx lvl so off sts = Inl OutOfBounds"
  by (simp add: statsRecord_def ebind_def Buffer_readUInt16LE_def)

text \<open>
  When \<open>getCharacterStats\<close> returns a record, the slot index is one of 0 to 9, the
  buffer reaches past the level field of that slot in the header table, and the block was
  found by the scan at an offset from 44 to 119999 of the slot's data.
\<close>

lemma getCharacterStats_SomeD:
  assumes "getCharacterStats buf slotIdx = Some cs"
  shows "\<exists>off sts.
      0 \<le> slotIdx \<and> slotIdx \<le> 9 \<and> 26221872 + slotIdx * 588 + 2 \<le> int (length buf) \<and>
      Buffer_readUInt16LE buf (26221872 + slotIdx * 588) = Inr (level cs) \<and>
      findStats (region buf (nat (784 + slotIdx * 2621456)) 2621440) (level cs) = Some (off, sts) \<and>
      44 \<le> off \<and> off < 120000 \<and>
      statsOffset cs = 784 + slotIdx * 2621456 + off \<and>
      hpOffsets cs = [statsOffset cs - 44, statsOffset cs - 40, statsOffset cs - 36] \<and>
      fpOffsets cs = [statsOffset cs - 32, statsOffset cs - 28, statsOffset cs - 24] \<and>
      staminaOffsets cs = [statsOffset cs - 16, statsOffset cs - 12, statsOffset cs - 8]"
proof -
  from assms have len: "26221872 + slotIdx * 588 + 2 \<le> int (length buf)"
    by (auto simp: getCharacterStats_def Let_def split: if_splits)
  from assms len obtain lvl where lvl: "Buffer_readUInt16LE buf (26221872 + slotIdx * 588) = Inr lvl"
    by (cases "Buffer_readUInt16LE buf (26221872 + slotIdx * 588)")
       (auto simp: getCharacterStats_def Let_def split: if_splits)
  from assms len lvl obtain so sl where
    so: "array_get slotOffsets slotIdx = Some so" and sl: "array_get slotLengths slotIdx = Some sl"
    by (cases "array_get slotOffsets slotIdx"; cases "array_get slotLengths slotIdx")
       (auto simp: getCharacterStats_def Let_def split: if_splits)
  from so sl have idx: "0 \<le> slotIdx" "slotIdx \<le> 9" and so': "so = 784 + slotIdx * 2621456"
    and sl': "sl = 2621440"
    by (simp_all add: array_get_slotOffsets array_get_slotLengths)
  define slotData where "slotData = Buffer_slice buf so (so + sl)"
  from idx have sd: "slotData = region buf (nat (784 + slotIdx * 2621456)) 2621440"
    unfolding slotData_def so' sl'
    using Buffer_slice_region [of "784 + slotIdx * 2621456" 2621440 buf] by simp
  from assms len lvl so sl obtain off sts where
    f: "findStats slotData lvl = Some (off, sts)"
    and rec: "statsRecord slotData slotIdx lvl so off sts = Inr cs"
    by (cases "findStats slotData lvl";
        cases "statsRecord slotData slotIdx lvl so (fst (the (findStats slotData lvl)))
                 (snd (the (findStats slotData lvl)))")
       (auto simp: getCharacterStats_def Let_def slotData_def split: if_splits)
  from f have "off < spec_scanBound slotData"
    using findStats_loop_Some [of 0 slotData lvl off sts] by (simp add: findStats_def)
  then have b: "off < 120000" by (simp add: spec_scanBound_def)
  note r = statsRecord_InrD [OF rec]
  from r(6) lvl have l: "Buffer_readUInt16LE buf (26221872 + slotIdx * 588) = Inr (level cs)"
    by simp
  from f sd r(6) have f': "findStats (region buf (nat (784 + slotIdx * 2621456)) 2621440)
      (level cs) = Some (off, sts)"
    by simp
  from idx len l f' r(1) b r(2-5) show ?thesis
    unfolding so' by (intro exI [of _ off] exI [of _ sts]) simp
qed

subsection \<open>The writes of \<open>setCharacterStats\<close>\<close>

lemma Buffer_writeUInt8_ok:
  "0 \<le> v \<Longrightarrow> v \<le> 255 \<Longrightarrow> 0 \<le> off \<Longrightarrow> off < int (length buf) \<Longrightarrow>
   Buffer_writeUInt8 buf v off = Inr (buf[nat off := word_of_int v])"
  by (simp add: Buffer_writeUInt8_def)

lemma Buffer_writeUInt16LE_ok:
  "0 \<le> v \<Longrightarrow> v \<le> 65535 \<Longrightarrow> 0 \<le> off \<Longrightarrow> off + 2 \<le> int (length buf) \<Longrightarrow>
   Buffer_writeUInt16LE buf v off =
     Inr (buf[nat off := word_of_int v, nat off + 1 := word_of_int (v div 256)])"
  by (simp add: Buffer_writeUInt16LE_def)

lemma Buffer_writeUInt16LE_range:
  "v < 0 \<or> 65535 < v \<Longrightarrow> Buffer_writeUInt16LE buf v off = Inl OutOfBounds"
  by (auto simp: Buffer_writeUInt16LE_def)

lemma uint8_of_int: "0 \<le> v \<Longrightarrow> v \<le> 255 \<Longrightarrow> uint (word_of_int v :: byte) = v"
  by (simp add: uint_word_of_int)

lemma u16_read_back:
  assumes "0 \<le> v" and "v \<le> 65535" and "0 \<le> off" and "off + 2 \<le> int (length b)"
    and "b ! nat off = word_of_int v" and "b ! (nat off + 1) = word_of_int (v div 256)"
  shows "Buffer_readUInt16LE b off = Inr v"
proof -
  have lo: "uint (word_of_int v :: byte) = v mod 256" by (simp add: uint_word_of_int)
  from assms have "0 \<le> v div 256" "v div 256 \<le> 255" by simp_all
  then have hi: "uint (word_of_int (v div 256) :: byte) = v div 256" by (rule uint8_of_int)
  have "v mod 256 + v div 256 * 256 = v" by simp
  with assms lo hi show ?thesis by (simp add: Buffer_readUInt16LE_def)
qed

lemma list_update_sameOutside:
  assumes "sameOutside W a b" and "p \<in> W"
  shows "sameOutside W a (b[p := x])"
  unfolding sameOutside_def
proof (intro conjI allI impI)
  show "length a = length (b[p := x])" using assms(1) by (simp add: sameOutside_def)
next
  fix n assume n: "n < length a \<and> n \<notin> W"
  with assms(2) have "n \<noteq> p" by auto
  then have "b[p := x] ! n = b ! n" by simp
  with assms(1) n show "a ! n = b[p := x] ! n" by (simp add: sameOutside_def)
qed

lemma writeAllUInt16LE_spec:
  assumes "0 \<le> v" and "v \<le> 65535"
  shows "(\<forall>off \<in> set offs. 0 \<le> off \<and> off + 2 \<le> int (length buf) \<and>
            nat off \<in> W \<and> nat off + 1 \<in> W) \<Longrightarrow>
         \<exists>b'. writeAllUInt16LE buf v offs = Inr b' \<and> sameOutside W buf b'"
proof (induction offs arbitrary: buf)
  case Nil
  then show ?case by (simp add: sameOutside_refl)
next
  case (Cons off offs)
  define b1 where "b1 = buf[nat off := word_of_int v, nat off + 1 := word_of_int (v div 256)]"
  from Cons.prems assms have w: "Buffer_writeUInt16LE buf v off = Inr b1"
    by (simp add: Buffer_writeUInt16LE_ok b1_def)
  from Cons.prems have s1: "sameOutside W buf b1"
    unfolding b1_def by (intro list_update_sameOutside sameOutside_refl) simp_all
  have "length b1 = length buf" by (simp add: b1_def)
  with Cons.prems have "\<forall>off \<in> set offs. 0 \<le> off \<and> off + 2 \<le> int (length b1) \<and>
            nat off \<in> W \<and> nat off + 1 \<in> W"
    by simp
  from Cons.IH [OF this] obtain b' where "writeAllUInt16LE b1 v offs = Inr b'"
    and "sameOutside W b1 b'"
    by blast
  with w s1 sameOutside_trans [of W buf b1 W b'] show ?case by auto
qed

lemma table_value_range:
  assumes "list_all (\<lambda>p. 0 \<le> snd p \<and> snd p \<le> 65535) tbl"
  shows "0 \<le> resourceValue (js_or (map_of tbl a) (map_of tbl b)) \<and>
         resourceValue (js_or (map_of tbl a) (map_of tbl b)) \<le> 65535"
proof -
  have r: "0 \<le> x \<and> x \<le> 65535" if "map_of tbl k = Some x" for k x
    using map_of_SomeD [OF that] assms by (auto simp: list_all_iff)
  show ?thesis
    by (auto simp: resourceValue_def js_or_def split: option.splits dest: r)
qed

lemma resource_values_range:
  "0 \<le> resourceValue (calculateHP v) \<and> resourceValue (calculateHP v) \<le> 65535"
  "0 \<le> resourceValue (calculateFP v) \<and> resourceValue (calculateFP v) \<le> 65535"
  "0 \<le> resourceValue (calculateStamina v) \<and> resourceValue (calculateStamina v) \<le> 65535"
proof -
  have "list_all (\<lambda>p. 0 \<le> snd p \<and> snd p \<le> 65535) hpTable" by code_simp
  then show "0 \<le> resourceValue (calculateHP v) \<and> resourceValue (calculateHP v) \<le> 65535"
    unfolding calculateHP_def by (rule table_value_range)
  have "list_all (\<lambda>p. 0 \<le> snd p \<and> snd p \<le> 65535) fpTable" by code_simp
  then show "0 \<le> resourceValue (calculateFP v) \<and> resourceValue (calculateFP v) \<le> 65535"
    unfolding calculateFP_def by (rule table_value_range)
  have "list_all (\<lambda>p. 0 \<le> snd p \<and> snd p \<le> 65535) staminaTable" by code_simp
  then show "0 \<le> resourceValue (calculateStamina v) \<and> resourceValue (calculateStamina v) \<le> 65535"
    unfolding calculateStamina_def by (rule table_value_range)
qed

text \<open>
  The optional writes of the resource triples succeed and stay inside the 44 bytes before
  the block.
\<close>

lemma writeResources_spec:
  assumes hp: "hpOffsets cs = [s - 44, s - 40, s - 36]"
    and fp: "fpOffsets cs = [s - 32, s - 28, s - 24]"
    and st: "staminaOffsets cs = [s - 16, s - 12, s - 8]"
    and s: "44 \<le> s" "s \<le> int (length buf)"
  shows "\<exists>b'. writeResources buf cs ns opts = Inr b' \<and>
           sameOutside {nat s - 44 ..< nat s} buf b'"
proof -
  let ?W = "{nat s - 44 ..< nat s}"
  have three: "\<exists>b3. ebind (writeAllUInt16LE b x (hpOffsets cs)) (\<lambda>b1.
                    ebind (writeAllUInt16LE b1 y (fpOffsets cs)) (\<lambda>b2.
                    writeAllUInt16LE b2 z (staminaOffsets cs))) = Inr b3 \<and>
                 sameOutside ?W b b3"
    if v: "0 \<le> x \<and> x \<le> 65535" "0 \<le> y \<and> y \<le> 65535" "0 \<le> z \<and> z \<le> 65535"
      and len: "length b = length buf" for b x y z
  proof -
    have ok: "\<forall>off \<in> set offs. 0 \<le> off \<and> off + 2 \<le> int (length b') \<and>
            nat off \<in> ?W \<and> nat off + 1 \<in> ?W"
      if "length b' = length buf" "set offs \<subseteq> {s - 44, s - 40, s - 36, s - 32, s - 28, s - 24,
           s - 16, s - 12, s - 8}" for b' offs
      using that s by auto
    from writeAllUInt16LE_spec [of x "hpOffsets cs" b ?W] v ok [OF len, of "hpOffsets cs"]
    obtain b1 where w1: "writeAllUInt16LE b x (hpOffsets cs) = Inr b1"
      and s1: "sameOutside ?W b b1"
      unfolding hp by auto
    from s1 len have l1: "length b1 = length buf" by (simp add: sameOutside_length)
    from writeAllUInt16LE_spec [of y "fpOffsets cs" b1 ?W] v ok [OF l1, of "fpOffsets cs"]
    obtain b2 where w2: "writeAllUInt16LE b1 y (fpOffsets cs) = Inr b2"
      and s2: "sameOutside ?W b1 b2"
      unfolding fp by auto
    from s2 l1 have l2: "length b2 = length buf" by (simp add: sameOutside_length)
    from writeAllUInt16LE_spec [of z "staminaOffsets cs" b2 ?W] v
      ok [OF l2, of "staminaOffsets cs"]
    obtain b3 where w3: "writeAllUInt16LE b2 z (staminaOffsets cs) = Inr b3"
      and s3: "sameOutside ?W b2 b3"
      unfolding st by auto
    from sameOutside_trans [OF sameOutside_trans [OF s1 s2] s3]
    have "sameOutside ?W b b3" by simp
    with w1 w2 w3 show ?thesis by (simp add: ebind_def)
  qed
  show ?thesis
  proof (cases "godMode opts")
    case True
    with three [of 60000 60000 60000 buf] show ?thesis
      by (simp add: writeResources_def)
  next
    case False
    show ?thesis
    proof (cases "customAttributes opts")
      case True
      with False three [OF resource_values_range(1) [of "vigor ns"]
          resource_values_range(2) [of "mind ns"]
          resource_values_range(3) [of "endurance ns"], of buf]
      show ?thesis
        by (simp add: writeResources_def Let_def)
    next
      case f: False
      with False show ?thesis by (simp add: writeResources_def sameOutside_refl)
    qed
  qed
qed

text \<open>The eight attribute writes, one list update each.\<close>

lemma writeStats_8:
  assumes v: "\<forall>x \<in> set [v0, v1, v2, v3, v4, v5, v6, v7]. 0 \<le> x \<and> x \<le> 255"
    and s: "0 \<le> s" "s + 29 \<le> int (length buf)"
  shows "writeStats buf s so 0 [v0, v1, v2, v3, v4, v5, v6, v7] =
     Inr (buf[nat s := word_of_int v0, nat s + 4 := word_of_int v1, nat s + 8 := word_of_int v2,
              nat s + 12 := word_of_int v3, nat s + 16 := word_of_int v4,
              nat s + 20 := word_of_int v5, nat s + 24 := word_of_int v6,
              nat s + 28 := word_of_int v7])"
proof -
  have w: "Buffer_writeUInt8 b x (so + (s - so + k)) = Inr (b[nat s + nat k := word_of_int x])"
    if "0 \<le> x" "x \<le> 255" "length b = length buf" "0 \<le> k" "k \<le> 28" for b x k
    using Buffer_writeUInt8_ok [of x "s + k" b] that s by (simp add: nat_add_distrib)
  from v show ?thesis
    by (simp add: Let_def w [where k = 0, simplified] w [where k = 4, simplified]
        w [where k = 8, simplified] w [where k = 12, simplified] w [where k = 16, simplified]
        w [where k = 20, simplified] w [where k = 24, simplified] w [where k = 28, simplified])
qed


text \<open>Any attribute that is not a byte makes the attribute writes raise.\<close>

lemma writeStats_range:
  "\<exists>v \<in> set vs. v < 0 \<or> 255 < v \<Longrightarrow> writeStats buf s so k vs = Inl OutOfBounds"
proof (induction vs arbitrary: buf k)
  case Nil
  then show ?case by simp
next
  case (Cons v vs)
  show ?case
  proof (cases "Buffer_writeUInt8 buf v (so + (s - so + k * 4))")
    case (Inl e)
    then have "e = OutOfBounds" by (auto simp: Buffer_writeUInt8_def split: if_splits)
    with Inl show ?thesis by (simp add: Let_def)
  next
    case (Inr b')
    then have "\<not> (v < 0 \<or> 255 < v)" by (auto simp: Buffer_writeUInt8_def split: if_splits)
    with Cons.prems have "\<exists>v \<in> set vs. v < 0 \<or> 255 < v" by auto
    from Cons.IH [OF this] Inr show ?thesis by (simp add: Let_def)
  qed
qed

text \<open>
  The four bytes of a 32-bit field whose low half holds \<open>v\<close> and whose high half holds
  \<open>u\<close>, read as one signed number.
\<close>

lemma take4_drop:
  assumes "n + 4 \<le> length b"
  shows "take 4 (drop n b) = [b ! n, b ! (n + 1), b ! (n + 2), b ! (n + 3)]"
proof (rule nth_equalityI)
  from assms show "length (take 4 (drop n b)) = length [b ! n, b ! (n + 1), b ! (n + 2), b ! (n + 3)]"
    by simp
next
  fix i assume "i < length (take 4 (drop n b))"
  with assms have "i < 4" by simp
  then consider "i = 0" | "i = 1" | "i = 2" | "i = 3" by linarith
  then show "take 4 (drop n b) ! i = [b ! n, b ! (n + 1), b ! (n + 2), b ! (n + 3)] ! i"
    using assms by cases simp_all
qed

lemma i32_read_back:
  assumes "0 \<le> v" and "v \<le> 65535" and "0 \<le> off"
    and "b ! nat off = word_of_int v" and "b ! (nat off + 1) = word_of_int (v div 256)"
    and "Buffer_readUInt16LE b (off + 2) = Inr u"
  shows "Buffer_readInt32LE b off = Inr (toSigned 32 (v + 65536 * u))"
proof -
  from assms(3,6) have len: "off + 4 \<le> int (length b)"
    and u: "u = uint (b ! nat (off + 2)) + uint (b ! (nat (off + 2) + 1)) * 2 ^ 8"
    by (auto simp: Buffer_readUInt16LE_def split: if_splits)
  from assms(3) have n: "nat (off + 2) = nat off + 2" "nat (off + 2) + 1 = nat off + 3"
    by simp_all
  from assms(3) len have "nat off + 4 \<le> length b" by simp
  note t = take4_drop [OF this]
  have lo: "uint (word_of_int v :: byte) = v mod 256" by (simp add: uint_word_of_int)
  from assms have "0 \<le> v div 256" "v div 256 \<le> 255" by simp_all
  then have hi: "uint (word_of_int (v div 256) :: byte) = v div 256" by (rule uint8_of_int)
  have e0: "uint (b ! nat off) = v mod 256" by (simp only: assms(4) lo)
  have e1: "uint (b ! (nat off + 1)) = v div 256" by (simp only: assms(5) hi)
  define c2 where "c2 = uint (b ! (nat off + 2))"
  define c3 where "c3 = uint (b ! (nat off + 3))"
  have "nat off + 2 + 1 = nat off + 3" by simp
  with u have u': "u = c2 + c3 * 2 ^ 8" by (simp only: n(1) c2_def c3_def)
  have le: "leValue [a0, a1, a2, a3]
      = uint a0 + 256 * uint a1 + 65536 * uint a2 + 16777216 * uint a3"
    for a0 a1 a2 a3 :: byte
    by (simp add: leValue_def)
  have "leValue (take 4 (drop (nat off) b))
      = v mod 256 + 256 * (v div 256) + 65536 * c2 + 16777216 * c3"
    by (simp only: t le e0 e1 c2_def c3_def)
  also have "\<dots> = v + 65536 * u" by (simp add: u')
  finally have "leValue (take 4 (drop (nat off) b)) = v + 65536 * u" .
  with assms(3) len show ?thesis by (simp add: Buffer_readInt32LE_def)
qed

text \<open>
  The level that \<open>extractSaveHeaderInfo\<close> returns for a summary record is the signed
  32-bit number at byte 34 of the record.
\<close>

lemma extractSaveHeaderInfo_level:
  assumes "extractSaveHeaderInfo hdata = Inr info"
  shows "Buffer_readInt32LE hdata 34 = Inr (characterLevel info)"
  using assms
  by (auto simp: extractSaveHeaderInfo_def Let_def ebind_def readBytes_def readInt32LE_def
      newBufferReader_def split: sum.splits prod.splits)

lemma extractSaveHeaderInfo_total:
  assumes "42 \<le> length hdata"
  shows "\<exists>info. extractSaveHeaderInfo hdata = Inr info"
  using assms
  by (simp add: extractSaveHeaderInfo_def Let_def ebind_def readBytes_def readInt32LE_def
      newBufferReader_def Buffer_readInt32LE_def)

lemma Buffer_readInt32LE_slice:
  assumes "0 \<le> p" and "0 \<le> k" and "k + 4 \<le> n"
    and "Buffer_readInt32LE (Buffer_slice b p (p + n)) k = Inr v"
  shows "Buffer_readInt32LE b (p + k) = Inr v"
proof -
  from assms(1-3) have s: "Buffer_slice b p (p + n) = take (nat n) (drop (nat p) b)"
    by (intro Buffer_slice_nonneg) simp_all
  from assms(4) have len: "k + 4 \<le> int (length (take (nat n) (drop (nat p) b)))"
    and v: "v = toSigned 32 (leValue (take 4 (drop (nat k) (take (nat n) (drop (nat p) b)))))"
    unfolding s by (auto simp: Buffer_readInt32LE_def split: if_splits)
  from len assms(1,2) have inb: "p + k + 4 \<le> int (length b)" by simp
  from assms(2,3) have "4 \<le> nat n - nat k" by simp
  then have "take 4 (drop (nat k) (take (nat n) (drop (nat p) b)))
      = take 4 (drop (nat k) (drop (nat p) b))"
    by (simp add: drop_take min_def)
  also from assms(1,2) have "\<dots> = take 4 (drop (nat (p + k)) b)"
    by (simp add: nat_add_distrib add.commute)
  finally show ?thesis
    using inb assms(1,2) v by (simp add: Buffer_readInt32LE_def)
qed

lemma Buffer_readUInt16LE_cong:
  assumes "length a = length b"
    and "0 \<le> off \<Longrightarrow> off + 2 \<le> int (length a) \<Longrightarrow>
         a ! nat off = b ! nat off \<and> a ! (nat off + 1) = b ! (nat off + 1)"
  shows "Buffer_readUInt16LE a off = Buffer_readUInt16LE b off"
  using assms by (auto simp: Buffer_readUInt16LE_def)
subsection \<open>The level after \<open>setCharacterStats\<close>\<close>

lemma statValues_sum:
  "foldl (+) 0 (statValues ns) = sum_list (statValues ns)"
  by (simp add: statValues_def)

lemma statValues_sum_le:
  "\<forall>v \<in> set (statValues ns). 0 \<le> v \<and> v \<le> 255 \<Longrightarrow> sum_list (statValues ns) \<le> 2040"
  by (simp add: statValues_def)

text \<open>
  The buffer that \<open>setCharacterStats\<close> returns, at the positions it wrote the attributes
  and the two copies of the level to. \<open>s\<close> is the absolute offset of the block, \<open>lv\<close> the
  new level, \<open>h\<close> the offset of the level in the header table.
\<close>

lemma setCharacterStats_run:
  assumes md5: "\<And>xs. length (md5 xs) = 16"
    and located: "getCharacterStats buf slotIdx = Some cs"
    and range: "\<forall>v \<in> set (statValues ns). 0 \<le> v \<and> v \<le> 255"
    and sum: "79 \<le> sum_list (statValues ns)"
  shows "\<exists>out. setCharacterStats md5 buf slotIdx ns opts = Inr out \<and> length out = length buf \<and>
     (\<forall>k. k < 8 \<longrightarrow> out ! (nat (statsOffset cs) + 4 * k) = word_of_int (statValues ns ! k)) \<and>
     out ! (nat (statsOffset cs) + 44) = word_of_int (sum_list (statValues ns) - 79) \<and>
     out ! (nat (statsOffset cs) + 45) = word_of_int ((sum_list (statValues ns) - 79) div 256) \<and>
     out ! nat (26221872 + slotIdx * 588) = word_of_int (sum_list (statValues ns) - 79) \<and>
     out ! (nat (26221872 + slotIdx * 588) + 1)
       = word_of_int ((sum_list (statValues ns) - 79) div 256) \<and>
     (\<forall>x. 2 \<le> x \<and> nat (26221872 + slotIdx * 588) + x < length buf \<longrightarrow>
        out ! (nat (26221872 + slotIdx * 588) + x) = buf ! (nat (26221872 + slotIdx * 588) + x))"
proof -
  from getCharacterStats_SomeD [OF located] obtain off sts where
    idx: "0 \<le> slotIdx" "slotIdx \<le> 9"
    and len: "26221872 + slotIdx * 588 + 2 \<le> int (length buf)"
    and off: "44 \<le> off" "off < 120000"
    and so: "statsOffset cs = 784 + slotIdx * 2621456 + off"
    and hp: "hpOffsets cs = [statsOffset cs - 44, statsOffset cs - 40, statsOffset cs - 36]"
    and fp: "fpOffsets cs = [statsOffset cs - 32, statsOffset cs - 28, statsOffset cs - 24]"
    and st: "staminaOffsets cs = [statsOffset cs - 16, statsOffset cs - 12, statsOffset cs - 8]"
    by blast
  define s where "s = statsOffset cs"
  define p where "p = nat s"
  define h where "h = 26221872 + slotIdx * 588"
  define q where "q = nat h"
  define lv where "lv = sum_list (statValues ns) - 79"
  define j where "j = nat slotIdx"
  from idx have j: "j < 10" "slotIdx = int j" by (simp_all add: j_def)
  from so off j have p_eq: "p = slotDataPos j + nat off"
    by (simp add: p_def s_def slotDataPos_def nat_add_distrib nat_mult_distrib)
  from off have noff: "44 \<le> nat off" "nat off < 120000" by simp_all
  from j(1) have "j * 2621456 \<le> 9 * 2621456" by simp
  with p_eq noff have p_hi: "p + 46 \<le> 26215328"
    by (simp add: slotDataPos_def)
  from p_eq noff have p_lo: "44 \<le> p" by simp
  from idx have q_lo: "26221872 \<le> q" by (simp add: q_def h_def)
  from len idx have q_hi: "q + 2 \<le> length buf" by (simp add: q_def h_def)
  from so off idx have s0: "0 \<le> s" "int p = s" by (simp_all add: s_def p_def)
  from idx have h0: "0 \<le> h" "int q = h" by (simp_all add: h_def q_def)
  from sum statValues_sum_le [OF range] have lv: "0 \<le> lv" "lv \<le> 65535"
    by (simp_all add: lv_def)
  \<comment> \<open>the attributes\<close>
  define b1 where "b1 = buf[p := word_of_int (vigor ns), p + 4 := word_of_int (mind ns),
      p + 8 := word_of_int (endurance ns), p + 12 := word_of_int (strength ns),
      p + 16 := word_of_int (dexterity ns), p + 20 := word_of_int (intelligence ns),
      p + 24 := word_of_int (faith ns), p + 28 := word_of_int (arcane ns)]"
  have w1: "writeStats buf s (0x310 + slotIdx * 2621456) 0 (statValues ns) = Inr b1"
    unfolding statValues_def b1_def p_def
    using range p_hi q_lo q_hi s0
    by (intro writeStats_8) (simp_all add: statValues_def)
  have l1: "length b1 = length buf" by (simp add: b1_def)
  \<comment> \<open>the level in the block\<close>
  define b2 where "b2 = b1[p + 44 := word_of_int lv, p + 45 := word_of_int (lv div 256)]"
  have w2: "Buffer_writeUInt16LE b1 lv (s + 44) = Inr b2"
    using Buffer_writeUInt16LE_ok [of lv "s + 44" b1] lv s0 p_hi q_lo q_hi l1
    by (simp add: b2_def p_def nat_add_distrib add.commute)
  have l2: "length b2 = length buf" by (simp add: b2_def l1)
  \<comment> \<open>the level in the header table\<close>
  define b3 where "b3 = b2[q := word_of_int lv, q + 1 := word_of_int (lv div 256)]"
  have w3: "Buffer_writeUInt16LE b2 lv h = Inr b3"
    using Buffer_writeUInt16LE_ok [of lv h b2] lv h0 q_hi l2
    by (simp add: b3_def q_def)
  have l3: "length b3 = length buf" by (simp add: b3_def l2)
  \<comment> \<open>the resources and the checksums\<close>
  from writeResources_spec [of cs s b3 ns opts] hp fp st p_lo p_hi q_lo q_hi s0 l3
  obtain b4 where w4: "writeResources b3 cs ns opts = Inr b4"
    and s4: "sameOutside {p - 44 ..< p} b3 b4"
    unfolding s_def [symmetric] p_def [symmetric] by auto
  from s4 l3 have l4: "length b4 = length buf" by (simp add: sameOutside_length)
  with q_lo q_hi have "26215344 \<le> length b4" by simp
  from recalculateChecksums_spec [of md5 b4, OF md5 this]
  obtain out where w5: "recalculateChecksums md5 b4 = Inr out"
    and s5: "sameOutside (checksumWindows 0 \<union> {26215328 ..< 26215344}) b4 out"
    by blast
  from s5 l4 have l5: "length out = length buf" by (simp add: sameOutside_length)
  have run: "setCharacterStats md5 buf slotIdx ns opts = Inr out"
    using located w1 w2 w3 w4 w5
    by (simp add: setCharacterStats_def Let_def ebind_def statValues_sum
        s_def [symmetric] lv_def [symmetric] h_def [symmetric])
  \<comment> \<open>later writes leave the block and the header level alone\<close>
  have keep: "out ! n = b3 ! n"
    if n: "n < length buf" "p \<le> n" "n \<notin> checksumWindows 0" "n < 26215328 \<or> 26215344 \<le> n" for n
  proof -
    from n have "b4 ! n = b3 ! n"
      using sameOutside_nth [OF s4, of n] l3 by simp
    moreover from n have "out ! n = b4 ! n"
      using sameOutside_nth [OF s5, of n] l4 by auto
    ultimately show ?thesis by simp
  qed
  have block: "out ! (p + x) = b3 ! (p + x)" if "x \<le> 45" for x
  proof (rule keep)
    from that p_hi q_lo q_hi show "p + x < length buf" by simp
    show "p \<le> p + x" by simp
    from that noff have "slotDataPos j \<le> p + x" "p + x < slotDataPos j + 2621440"
      by (simp_all add: p_eq)
    from slotData_not_checksum [OF this] show "p + x \<notin> checksumWindows 0"
      unfolding checksumWindows_iff by blast
    from that p_hi show "p + x < 26215328 \<or> 26215344 \<le> p + x" by simp
  qed
  have header: "out ! (q + x) = b3 ! (q + x)" if "q + x < length buf" for x
  proof (rule keep)
    from that show "q + x < length buf" .
    from p_hi q_lo show "p \<le> q + x" by simp
    from q_lo checksumWindows_below [of "q + x" 0] show "q + x \<notin> checksumWindows 0" by auto
    from q_lo show "q + x < 26215328 \<or> 26215344 \<le> q + x" by simp
  qed
  have far: "p + 46 \<le> q" using p_hi q_lo by simp
  have inb: "p + 46 \<le> length buf" "q + 2 \<le> length buf" using p_hi q_lo q_hi by simp_all
  have attr: "b3 ! (p + 4 * k) = word_of_int (statValues ns ! k)" if "k < 8" for k
  proof -
    from that consider "k = 0" | "k = 1" | "k = 2" | "k = 3" | "k = 4" | "k = 5" | "k = 6"
      | "k = 7"
      by linarith
    then show ?thesis
      using far inb by cases (simp_all add: b3_def b2_def b1_def statValues_def)
  qed
  have lo: "b3 ! (p + 44) = word_of_int lv" and hi: "b3 ! (p + 45) = word_of_int (lv div 256)"
    using far inb by (simp_all add: b3_def b2_def b1_def)
  have hlo: "b3 ! q = word_of_int lv" and hhi: "b3 ! (q + 1) = word_of_int (lv div 256)"
    using far inb by (simp_all add: b3_def b2_def b1_def)
  have a: "\<forall>k. k < 8 \<longrightarrow> out ! (p + 4 * k) = word_of_int (statValues ns ! k)"
    using block attr by simp
  have upper: "\<forall>x. 2 \<le> x \<and> q + x < length buf \<longrightarrow> out ! (q + x) = buf ! (q + x)"
  proof (intro allI impI)
    fix x assume x: "2 \<le> x \<and> q + x < length buf"
    then have "out ! (q + x) = b3 ! (q + x)" by (simp add: header)
    also from x far have "\<dots> = buf ! (q + x)" by (simp add: b3_def b2_def b1_def)
    finally show "out ! (q + x) = buf ! (q + x)" .
  qed
  from q_hi have h01: "q + 0 < length buf" "q + 1 < length buf" by simp_all
  from run l5 a block [of 44] block [of 45] header [OF h01(1)] header [OF h01(2)]
    lo hi hlo hhi upper
  show ?thesis
    unfolding p_def s_def q_def h_def lv_def by auto
qed

subsection \<open>Running the stats functions on the sample buffer\<close>

lemma spec_isStatsBlock_prefix:
  assumes "0 \<le> j" and "j < int (length xs) - 50"
  shows "spec_isStatsBlock (xs @ ys) lvl j = spec_isStatsBlock xs lvl j"
    and "spec_attributes (xs @ ys) j = spec_attributes xs j"
proof -
  have n: "(xs @ ys) ! (nat j + k) = xs ! (nat j + k)" if "k < 50" for k
  proof -
    from assms that have "nat j + k < length xs" by linarith
    then show ?thesis by (simp add: nth_append)
  qed
  have n0: "(xs @ ys) ! nat j = xs ! nat j" using n [of 0] by simp
  show a: "spec_attributes (xs @ ys) j = spec_attributes xs j"
    unfolding spec_attributes_unfold by (simp add: n n0)
  have "spec_levelField (xs @ ys) j = spec_levelField xs j"
    by (simp add: spec_levelField_def n)
  with a show "spec_isStatsBlock (xs @ ys) lvl j = spec_isStatsBlock xs lvl j"
    by (simp add: spec_isStatsBlock_def)
qed

text \<open>A block found in a payload is found at the same place when bytes follow the payload.\<close>

lemma findStats_prefix:
  assumes "findStats xs lvl = Some (k, sts)"
  shows "findStats (xs @ ys) lvl = Some (k, sts)"
proof -
  from assms have k: "0 \<le> k" "k < spec_scanBound xs" and m: "spec_isStatsBlock xs lvl k"
    and s: "sts = spec_attributes xs k"
    and least: "\<forall>j. 0 \<le> j \<and> j < k \<longrightarrow> \<not> spec_isStatsBlock xs lvl j"
    using findStats_loop_Some [of 0 xs lvl k sts] by (simp_all add: findStats_def)
  from k have kb: "k < int (length xs) - 50" and k2: "k < spec_scanBound (xs @ ys)"
    by (simp_all add: spec_scanBound_def)
  have "spec_isStatsBlock (xs @ ys) lvl k" "sts = spec_attributes (xs @ ys) k"
    using m s spec_isStatsBlock_prefix [OF k(1) kb] by simp_all
  moreover have "\<forall>j. 0 \<le> j \<and> j < k \<longrightarrow> \<not> spec_isStatsBlock (xs @ ys) lvl j"
  proof (intro allI impI)
    fix j assume j: "0 \<le> j \<and> j < k"
    with kb have "j < int (length xs) - 50" by simp
    with j least spec_isStatsBlock_prefix(1) [of j xs ys lvl]
    show "\<not> spec_isStatsBlock (xs @ ys) lvl j" by simp
  qed
  ultimately show ?thesis
    using k(1) k2 findStats_loop_Some [of 0 "xs @ ys" lvl k sts] by (simp add: findStats_def)
qed

lemma Buffer_readUInt16LE_prefix:
  "off + 2 \<le> int (length xs) \<Longrightarrow> Buffer_readUInt16LE (xs @ ys) off = Buffer_readUInt16LE xs off"
  by (auto simp: Buffer_readUInt16LE_def nth_append)

lemma readAll_cong:
  "(\<And>off. off \<in> set offs \<Longrightarrow> rd off = rd' off) \<Longrightarrow> readAll rd offs = readAll rd' offs"
proof (induction offs)
  case Nil
  show ?case by simp
next
  case (Cons a offs)
  have t: "readAll rd offs = readAll rd' offs" by (rule Cons.IH) (simp add: Cons.prems)
  have h: "rd a = rd' a" by (rule Cons.prems) simp
  show ?case by (simp only: readAll.simps t h)
qed

lemma statsRecord_prefix:
  assumes "off \<le> int (length xs)"
  shows "statsRecord (xs @ ys) i l so off sts = statsRecord xs i l so off sts"
proof -
  have r: "readAll (Buffer_readUInt16LE (xs @ ys)) [off - a, off - b, off - c]
      = readAll (Buffer_readUInt16LE xs) [off - a, off - b, off - c]"
    if "8 \<le> a" "8 \<le> b" "8 \<le> c" for a b c
  proof (rule readAll_cong)
    fix x assume "x \<in> set [off - a, off - b, off - c]"
    with assms that have "x + 2 \<le> int (length xs)" by auto
    then show "Buffer_readUInt16LE (xs @ ys) x = Buffer_readUInt16LE xs x"
      by (rule Buffer_readUInt16LE_prefix)
  qed
  have r1: "readAll (Buffer_readUInt16LE (xs @ ys)) [off - 44, off - 40, off - 36]
      = readAll (Buffer_readUInt16LE xs) [off - 44, off - 40, off - 36]"
    and r2: "readAll (Buffer_readUInt16LE (xs @ ys)) [off - 16, off - 12, off - 8]
      = readAll (Buffer_readUInt16LE xs) [off - 16, off - 12, off - 8]"
    and r3: "readAll (Buffer_readUInt16LE (xs @ ys)) [off - 32, off - 28, off - 24]
      = readAll (Buffer_readUInt16LE xs) [off - 32, off - 28, off - 24]"
    by (rule r; simp)+
  show ?thesis
    unfolding statsRecord_def by (simp only: r1 r2 r3)
qed

lemma length_samplePayload: "length samplePayload = 176"
  by (simp add: samplePayload_def sampleStatsBlock_def)

lemma length_sampleSaveBuffer: "length sampleSaveBuffer = 26608560"
  by (simp add: sampleSaveBuffer_def length_samplePayload)

lemma sampleSaveBuffer_slot0:
  "region sampleSaveBuffer 784 2621440 = samplePayload @ replicate 2621264 0"
  by (simp add: region_def sampleSaveBuffer_def length_samplePayload)

lemma sampleSaveBuffer_zero:
  assumes "960 \<le> n" and "n < 26608560"
  shows "sampleSaveBuffer ! n = 0"
proof -
  from assms have "\<not> n < 784" "\<not> n - 784 < 176" "n - 784 - 176 < 26607600"
    by linarith+
  then show ?thesis
    by (simp add: sampleSaveBuffer_def nth_append length_samplePayload)
qed

lemma sampleSaveBuffer_level:
  "Buffer_readUInt16LE sampleSaveBuffer 26221872 = Inr 0"
  "Buffer_readUInt16LE sampleSaveBuffer 26221874 = Inr 0"
  using sampleSaveBuffer_zero [of 26221872] sampleSaveBuffer_zero [of 26221873]
    sampleSaveBuffer_zero [of 26221874] sampleSaveBuffer_zero [of 26221875]
  by (simp_all add: Buffer_readUInt16LE_def length_sampleSaveBuffer)

text \<open>
  \<open>getCharacterStats\<close> on a buffer of the size of a save file whose slot 0 starts with
  the synthetic payload and whose header level of slot 0 reads 0 in its low two bytes.
\<close>

lemma getCharacterStats_sample:
  assumes len: "length b = 26608560"
    and lvl: "Buffer_readUInt16LE b 26221872 = Inr 0"
    and slot: "region b 784 2621440 = samplePayload @ replicate 2621264 0"
  shows "getCharacterStats b 0 =
     Some \<lparr>slotIndex = 0, level = 0, statsOffset = 828,
           stats = \<lparr>vigor = 10, mind = 10, endurance = 10, strength = 10, dexterity = 10,
                    intelligence = 10, faith = 10, arcane = 9\<rparr>,
           hp = [0, 0, 0], stamina = [0, 0, 0], fp = [0, 0, 0],
           hpOffsets = [784, 788, 792], staminaOffsets = [812, 816, 820],
           fpOffsets = [796, 800, 804]\<rparr>"
proof -
  have f: "findStats samplePayload 0 = Some (44, [10, 10, 10, 10, 10, 10, 10, 9])"
    by code_simp
  have r: "statsRecord samplePayload 0 0 784 44 [10, 10, 10, 10, 10, 10, 10, 9] =
     Inr \<lparr>slotIndex = 0, level = 0, statsOffset = 828,
           stats = \<lparr>vigor = 10, mind = 10, endurance = 10, strength = 10, dexterity = 10,
                    intelligence = 10, faith = 10, arcane = 9\<rparr>,
           hp = [0, 0, 0], stamina = [0, 0, 0], fp = [0, 0, 0],
           hpOffsets = [784, 788, 792], staminaOffsets = [812, 816, 820],
           fpOffsets = [796, 800, 804]\<rparr>"
    by code_simp
  have so: "array_get slotOffsets 0 = Some 784" and sl: "array_get slotLengths 0 = Some 2621440"
    by (simp_all add: array_get_slotOffsets array_get_slotLengths)
  have d: "Buffer_slice b 784 2622224 = samplePayload @ replicate 2621264 0"
    using Buffer_slice_region [of 784 2621440 b] by (simp add: slot)
  have r': "statsRecord (samplePayload @ replicate 2621264 0) 0 0 784 44
      [10, 10, 10, 10, 10, 10, 10, 9] = statsRecord samplePayload 0 0 784 44
      [10, 10, 10, 10, 10, 10, 10, 9]"
    by (rule statsRecord_prefix) (simp add: length_samplePayload)
  show ?thesis
    by (simp add: getCharacterStats_def Let_def so sl d lvl
        findStats_prefix [OF f] r' r len)
qed

lemma sampleSaveBuffer_stats:
  "getCharacterStats sampleSaveBuffer 0 =
     Some \<lparr>slotIndex = 0, level = 0, statsOffset = 828,
           stats = \<lparr>vigor = 10, mind = 10, endurance = 10, strength = 10, dexterity = 10,
                    intelligence = 10, faith = 10, arcane = 9\<rparr>,
           hp = [0, 0, 0], stamina = [0, 0, 0], fp = [0, 0, 0],
           hpOffsets = [784, 788, 792], staminaOffsets = [812, 816, 820],
           fpOffsets = [796, 800, 804]\<rparr>"
  by (rule getCharacterStats_sample
        [OF length_sampleSaveBuffer sampleSaveBuffer_level(1) sampleSaveBuffer_slot0])

lemma length_sampleHighLevelBuffer: "length sampleHighLevelBuffer = 26608560"
  by (simp add: sampleHighLevelBuffer_def length_sampleSaveBuffer)

lemma sampleHighLevelBuffer_level:
  "Buffer_readUInt16LE sampleHighLevelBuffer 26221872 = Inr 0"
  "Buffer_readUInt16LE sampleHighLevelBuffer 26221874 = Inr 1"
  using sampleSaveBuffer_zero [of 26221872] sampleSaveBuffer_zero [of 26221873]
    sampleSaveBuffer_zero [of 26221875]
  by (simp_all add: Buffer_readUInt16LE_def sampleHighLevelBuffer_def length_sampleSaveBuffer)

lemma sampleHighLevelBuffer_slot0:
  "region sampleHighLevelBuffer 784 2621440 = samplePayload @ replicate 2621264 0"
proof -
  have "region sampleHighLevelBuffer 784 2621440 = region sampleSaveBuffer 784 2621440"
    unfolding sampleHighLevelBuffer_def
    by (rule region_cong) simp_all
  then show ?thesis by (simp only: sampleSaveBuffer_slot0)
qed

lemma sampleHighLevelBuffer_stats:
  "getCharacterStats sampleHighLevelBuffer 0 =
     Some \<lparr>slotIndex = 0, level = 0, statsOffset = 828,
           stats = \<lparr>vigor = 10, mind = 10, endurance = 10, strength = 10, dexterity = 10,
                    intelligence = 10, faith = 10, arcane = 9\<rparr>,
           hp = [0, 0, 0], stamina = [0, 0, 0], fp = [0, 0, 0],
           hpOffsets = [784, 788, 792], staminaOffsets = [812, 816, 820],
           fpOffsets = [796, 800, 804]\<rparr>"
  by (rule getCharacterStats_sample
        [OF length_sampleHighLevelBuffer sampleHighLevelBuffer_level(1)
          sampleHighLevelBuffer_slot0])
lemma setCharacterStats_low_sum:
  assumes located: "getCharacterStats buf slotIdx = Some cs"
    and range: "\<forall>v \<in> set (statValues ns). 0 \<le> v \<and> v \<le> 255"
    and sum: "sum_list (statValues ns) < 79"
  shows "setCharacterStats md5 buf slotIdx ns opts = Inl OutOfBounds"
proof -
  from getCharacterStats_SomeD [OF located] obtain off where
    idx: "0 \<le> slotIdx" "slotIdx \<le> 9"
    and len: "26221872 + slotIdx * 588 + 2 \<le> int (length buf)"
    and off: "44 \<le> off" "off < 120000"
    and so: "statsOffset cs = 784 + slotIdx * 2621456 + off"
    by blast
  from so off idx have s0: "0 \<le> statsOffset cs" by simp
  from idx have "slotIdx * 2621456 \<le> 9 * 2621456" by simp
  with so off len idx have s1: "statsOffset cs + 29 \<le> int (length buf)" by simp
  define p where "p = nat (statsOffset cs)"
  define b1 where "b1 = buf[p := word_of_int (vigor ns), p + 4 := word_of_int (mind ns),
      p + 8 := word_of_int (endurance ns), p + 12 := word_of_int (strength ns),
      p + 16 := word_of_int (dexterity ns), p + 20 := word_of_int (intelligence ns),
      p + 24 := word_of_int (faith ns), p + 28 := word_of_int (arcane ns)]"
  have w1: "writeStats buf (statsOffset cs) (0x310 + slotIdx * 2621456) 0 (statValues ns)
      = Inr b1"
    unfolding statValues_def b1_def p_def
    using range s0 s1
    by (intro writeStats_8) (simp_all add: statValues_def)
  from sum have "Buffer_writeUInt16LE b1 (sum_list (statValues ns) - 79) (statsOffset cs + 44)
      = Inl OutOfBounds"
    by (intro Buffer_writeUInt16LE_range) simp
  with located w1 show ?thesis
    by (simp add: setCharacterStats_def Let_def ebind_def statValues_sum)
qed

lemma setCharacterStats_not_bytes:
  assumes located: "getCharacterStats buf slotIdx = Some cs"
    and range: "\<exists>v \<in> set (statValues ns). v < 0 \<or> 255 < v"
  shows "setCharacterStats md5 buf slotIdx ns opts = Inl OutOfBounds"
  using located writeStats_range [OF range]
  by (simp add: setCharacterStats_def Let_def ebind_def)

text \<open>
  The result of \<open>setCharacterStats\<close> for byte attributes that sum to 79 or more, read
  back with the typed reads of \<open>Buffer\<close>. The level goes to the two low bytes of the
  four-byte field of the header table; the two high bytes of that field stay as they were.
\<close>

lemma setCharacterStats_written:
  assumes md5: "\<And>xs. length (md5 xs) = 16"
    and located: "getCharacterStats buf slotIdx = Some cs"
    and range: "\<forall>v \<in> set (statValues ns). 0 \<le> v \<and> v \<le> 255"
    and sum: "79 \<le> sum_list (statValues ns)"
  shows "\<exists>out. setCharacterStats md5 buf slotIdx ns opts = Inr out \<and> length out = length buf \<and>
     Buffer_readUInt16LE out (statsOffset cs + 44) = Inr (sum_list (statValues ns) - 79) \<and>
     Buffer_readUInt16LE out (26221872 + slotIdx * 588) = Inr (sum_list (statValues ns) - 79) \<and>
     (\<forall>k. k < 8 \<longrightarrow>
        Buffer_readUInt8 out (statsOffset cs + 4 * int k) = Inr (statValues ns ! k)) \<and>
     Buffer_readUInt16LE out (26221872 + slotIdx * 588 + 2)
       = Buffer_readUInt16LE buf (26221872 + slotIdx * 588 + 2) \<and>
     (\<forall>u. Buffer_readUInt16LE buf (26221872 + slotIdx * 588 + 2) = Inr u \<longrightarrow>
        Buffer_readInt32LE out (26221872 + slotIdx * 588)
          = Inr (toSigned 32 (sum_list (statValues ns) - 79 + 65536 * u)))"
proof -
  let ?lv = "sum_list (statValues ns) - 79"
  let ?h = "26221872 + slotIdx * 588"
  from setCharacterStats_run [of md5 buf slotIdx cs ns opts, OF assms]
  obtain out where run: "setCharacterStats md5 buf slotIdx ns opts = Inr out"
    and len: "length out = length buf"
    and attr: "\<And>k. k < 8 \<Longrightarrow>
        out ! (nat (statsOffset cs) + 4 * k) = word_of_int (statValues ns ! k)"
    and lo: "out ! (nat (statsOffset cs) + 44) = word_of_int ?lv"
    and hi: "out ! (nat (statsOffset cs) + 45) = word_of_int (?lv div 256)"
    and hlo: "out ! nat ?h = word_of_int ?lv"
    and hhi: "out ! (nat ?h + 1) = word_of_int (?lv div 256)"
    and upper: "\<And>x. 2 \<le> x \<Longrightarrow> nat ?h + x < length buf \<Longrightarrow>
        out ! (nat ?h + x) = buf ! (nat ?h + x)"
    by blast
  from getCharacterStats_SomeD [OF located] obtain off where
    idx: "0 \<le> slotIdx" "slotIdx \<le> 9"
    and blen: "?h + 2 \<le> int (length buf)"
    and off: "44 \<le> off" "off < 120000"
    and so: "statsOffset cs = 784 + slotIdx * 2621456 + off"
    by blast
  from so off idx have s0: "0 \<le> statsOffset cs" by simp
  from idx have "slotIdx * 2621456 \<le> 9 * 2621456" by simp
  with so off blen idx have s1: "statsOffset cs + 46 \<le> int (length buf)" by simp
  from idx have h0: "0 \<le> ?h" by simp
  from sum statValues_sum_le [OF range] have lv: "0 \<le> ?lv" "?lv \<le> 65535"
    by simp_all
  have a: "Buffer_readUInt16LE out (statsOffset cs + 44) = Inr ?lv"
  proof (rule u16_read_back [OF lv])
    from s0 show "0 \<le> statsOffset cs + 44" by simp
    from s1 len show "statsOffset cs + 44 + 2 \<le> int (length out)" by simp
    from s0 have n: "nat (statsOffset cs + 44) = nat (statsOffset cs) + 44" by simp
    from lo show "out ! nat (statsOffset cs + 44) = word_of_int ?lv" by (simp add: n)
    from s0 have n': "nat (statsOffset cs + 44) + 1 = nat (statsOffset cs) + 45" by simp
    from hi show "out ! (nat (statsOffset cs + 44) + 1) = word_of_int (?lv div 256)"
      by (simp only: n')
  qed
  have b: "Buffer_readUInt16LE out ?h = Inr ?lv"
  proof (rule u16_read_back [OF lv])
    from h0 show "0 \<le> ?h" .
    from blen len show "?h + 2 \<le> int (length out)" by simp
  qed (rule hlo, rule hhi)
  have c: "Buffer_readUInt8 out (statsOffset cs + 4 * int k) = Inr (statValues ns ! k)"
    if k: "k < 8" for k
  proof -
    from s0 have n: "nat (statsOffset cs + 4 * int k) = nat (statsOffset cs) + 4 * k"
      by (simp add: nat_add_distrib nat_mult_distrib)
    from k have "statValues ns ! k \<in> set (statValues ns)"
      by (intro nth_mem) (simp add: statValues_def)
    with range have v: "0 \<le> statValues ns ! k" "statValues ns ! k \<le> 255" by auto
    from k s0 s1 len have "0 \<le> statsOffset cs + 4 * int k"
      "statsOffset cs + 4 * int k + 1 \<le> int (length out)"
      by simp_all
    then show ?thesis
      unfolding Buffer_readUInt8_def n attr [OF k] by (simp add: uint8_of_int [OF v])
  qed
  have d: "Buffer_readUInt16LE out (?h + 2) = Buffer_readUInt16LE buf (?h + 2)"
  proof (rule Buffer_readUInt16LE_cong [OF len])
    assume inb: "?h + 2 + 2 \<le> int (length out)"
    from h0 have n: "nat (?h + 2) = nat ?h + 2" "nat ?h + 2 + 1 = nat ?h + 3" by simp_all
    from inb len h0 have "nat ?h + 2 < length buf" "nat ?h + 3 < length buf" by simp_all
    with upper [of 2] upper [of 3]
    have "out ! (nat ?h + 2) = buf ! (nat ?h + 2)" "out ! (nat ?h + 3) = buf ! (nat ?h + 3)"
      by simp_all
    then show "out ! nat (?h + 2) = buf ! nat (?h + 2) \<and>
        out ! (nat (?h + 2) + 1) = buf ! (nat (?h + 2) + 1)"
      by (simp only: n)
  qed
  have e: "Buffer_readInt32LE out ?h = Inr (toSigned 32 (?lv + 65536 * u))"
    if "Buffer_readUInt16LE buf (?h + 2) = Inr u" for u
  proof (rule i32_read_back [OF lv h0 hlo hhi])
    from that d show "Buffer_readUInt16LE out (?h + 2) = Inr u" by simp
  qed
  from run len a b c d e show ?thesis by blast
qed

text \<open>
  C3, as the code has it. For a buffer in which \<open>getCharacterStats\<close> locates the block of
  the slot, and eight new attribute values that are bytes (0 to 255) and sum to \<open>S \<ge> 79\<close>,
  \<open>setCharacterStats\<close> returns a buffer of the same length in which the 16-bit
  little-endian level read at the located block plus 44 and the one read at
  \<open>26221872 + slotIndex * 588\<close> are both \<open>S - 79\<close>, and the byte at the block plus \<open>4 * k\<close> is
  attribute number \<open>k\<close>, for each of the eight attributes, whatever the options. The level
  in the header table is a four-byte field of which only the two low bytes are written:
  the two high bytes keep their value \<open>u\<close>, the field read as a signed 32-bit number is
  \<open>S - 79 + 65536 * u\<close>, less \<open>2 ^ 32\<close> when that is \<open>2 ^ 31\<close> or more (so it is \<open>S - 79\<close>
  when \<open>u\<close> is 0), and that number is the level which \<open>extractSaveHeaderInfo\<close> returns for
  the summary record of the slot. When an attribute is
  not a byte or \<open>S < 79\<close>, the range check of a write raises and no buffer is returned.
\<close>

theorem setCharacterStats_level:
  assumes "\<And>xs. length (md5 xs) = 16"
    and "getCharacterStats buf slotIdx = Some cs"
  shows "((\<forall>v \<in> set (statValues ns). 0 \<le> v \<and> v \<le> 255) \<and> 79 \<le> sum_list (statValues ns) \<longrightarrow>
     (\<exists>out. setCharacterStats md5 buf slotIdx ns opts = Inr out \<and> length out = length buf \<and>
        Buffer_readUInt16LE out (statsOffset cs + 44) = Inr (sum_list (statValues ns) - 79) \<and>
        Buffer_readUInt16LE out (26221872 + slotIdx * 588) = Inr (sum_list (statValues ns) - 79) \<and>
        (\<forall>k. k < 8 \<longrightarrow>
           Buffer_readUInt8 out (statsOffset cs + 4 * int k) = Inr (statValues ns ! k)) \<and>
        Buffer_readUInt16LE out (26221872 + slotIdx * 588 + 2)
          = Buffer_readUInt16LE buf (26221872 + slotIdx * 588 + 2) \<and>
        (\<forall>u. Buffer_readUInt16LE buf (26221872 + slotIdx * 588 + 2) = Inr u \<longrightarrow>
           Buffer_readInt32LE out (26221872 + slotIdx * 588)
             = Inr (toSigned 32 (sum_list (statValues ns) - 79 + 65536 * u))) \<and>
        (\<forall>info.
           extractSaveHeaderInfo
             (Buffer_slice out (HEADER_DATA_OFFSET + slotIdx * HEADER_DATA_LENGTH)
                (HEADER_DATA_OFFSET + slotIdx * HEADER_DATA_LENGTH + HEADER_DATA_LENGTH))
             = Inr info \<longrightarrow>
           Buffer_readInt32LE out (26221872 + slotIdx * 588) = Inr (characterLevel info)))) \<and>
    ((\<exists>v \<in> set (statValues ns). v < 0 \<or> 255 < v) \<or> sum_list (statValues ns) < 79 \<longrightarrow>
       setCharacterStats md5 buf slotIdx ns opts = Inl OutOfBounds)"
proof (intro conjI impI)
  assume ok: "(\<forall>v \<in> set (statValues ns). 0 \<le> v \<and> v \<le> 255) \<and> 79 \<le> sum_list (statValues ns)"
  from setCharacterStats_written [of md5 buf slotIdx cs ns opts, OF assms ok [THEN conjunct1]
      ok [THEN conjunct2]]
  obtain out where w: "setCharacterStats md5 buf slotIdx ns opts = Inr out \<and>
     length out = length buf \<and>
     Buffer_readUInt16LE out (statsOffset cs + 44) = Inr (sum_list (statValues ns) - 79) \<and>
     Buffer_readUInt16LE out (26221872 + slotIdx * 588) = Inr (sum_list (statValues ns) - 79) \<and>
     (\<forall>k. k < 8 \<longrightarrow>
        Buffer_readUInt8 out (statsOffset cs + 4 * int k) = Inr (statValues ns ! k)) \<and>
     Buffer_readUInt16LE out (26221872 + slotIdx * 588 + 2)
       = Buffer_readUInt16LE buf (26221872 + slotIdx * 588 + 2) \<and>
     (\<forall>u. Buffer_readUInt16LE buf (26221872 + slotIdx * 588 + 2) = Inr u \<longrightarrow>
        Buffer_readInt32LE out (26221872 + slotIdx * 588)
          = Inr (toSigned 32 (sum_list (statValues ns) - 79 + 65536 * u)))"
    by blast
  from getCharacterStats_SomeD [OF assms(2)] have idx: "0 \<le> slotIdx" by blast
  have i: "Buffer_readInt32LE out (26221872 + slotIdx * 588) = Inr (characterLevel info)"
    if "extractSaveHeaderInfo
          (Buffer_slice out (HEADER_DATA_OFFSET + slotIdx * HEADER_DATA_LENGTH)
             (HEADER_DATA_OFFSET + slotIdx * HEADER_DATA_LENGTH + HEADER_DATA_LENGTH))
          = Inr info" for info
  proof -
    from extractSaveHeaderInfo_level [OF that]
    have "Buffer_readInt32LE
        (Buffer_slice out (26221838 + slotIdx * 588) (26221838 + slotIdx * 588 + 588)) 34
        = Inr (characterLevel info)"
      by (simp add: HEADER_DATA_OFFSET_def HEADER_DATA_LENGTH_def)
    from Buffer_readInt32LE_slice [OF _ _ _ this] idx
    have "Buffer_readInt32LE out (26221838 + slotIdx * 588 + 34) = Inr (characterLevel info)"
      by simp
    then show ?thesis by (simp add: add.commute add.left_commute)
  qed
  from w i show "\<exists>out. setCharacterStats md5 buf slotIdx ns opts = Inr out \<and>
     length out = length buf \<and>
     Buffer_readUInt16LE out (statsOffset cs + 44) = Inr (sum_list (statValues ns) - 79) \<and>
     Buffer_readUInt16LE out (26221872 + slotIdx * 588) = Inr (sum_list (statValues ns) - 79) \<and>
     (\<forall>k. k < 8 \<longrightarrow>
        Buffer_readUInt8 out (statsOffset cs + 4 * int k) = Inr (statValues ns ! k)) \<and>
     Buffer_readUInt16LE out (26221872 + slotIdx * 588 + 2)
       = Buffer_readUInt16LE buf (26221872 + slotIdx * 588 + 2) \<and>
     (\<forall>u. Buffer_readUInt16LE buf (26221872 + slotIdx * 588 + 2) = Inr u \<longrightarrow>
        Buffer_readInt32LE out (26221872 + slotIdx * 588)
          = Inr (toSigned 32 (sum_list (statValues ns) - 79 + 65536 * u))) \<and>
     (\<forall>info.
        extractSaveHeaderInfo
          (Buffer_slice out (HEADER_DATA_OFFSET + slotIdx * HEADER_DATA_LENGTH)
             (HEADER_DATA_OFFSET + slotIdx * HEADER_DATA_LENGTH + HEADER_DATA_LENGTH))
          = Inr info \<longrightarrow>
        Buffer_readInt32LE out (26221872 + slotIdx * 588) = Inr (characterLevel info))"
    by blast
next
  assume bad: "(\<exists>v \<in> set (statValues ns). v < 0 \<or> 255 < v) \<or> sum_list (statValues ns) < 79"
  show "setCharacterStats md5 buf slotIdx ns opts = Inl OutOfBounds"
  proof (cases "\<exists>v \<in> set (statValues ns). v < 0 \<or> 255 < v")
    case True
    with assms(2) show ?thesis by (rule setCharacterStats_not_bytes)
  next
    case False
    then have r: "\<forall>v \<in> set (statValues ns). 0 \<le> v \<and> v \<le> 255" by auto
    from False bad have "sum_list (statValues ns) < 79" by simp
    with assms(2) r show ?thesis by (rule setCharacterStats_low_sum)
  qed
qed

text \<open>
  The summary record of slot 0 after a run, for a buffer of the size of a save file: the
  588 bytes that \<open>processSaves\<close> hands to \<open>extractSaveHeaderInfo\<close>, which decodes them.
\<close>

lemma summary_record_decoded:
  assumes "length out = 26608560"
  shows "\<exists>info. extractSaveHeaderInfo (Buffer_slice out 26221838 26222426) = Inr info"
proof -
  have "Buffer_slice out 26221838 26222426 = take 588 (drop 26221838 out)"
    using Buffer_slice_nonneg [of 26221838 588 out] by simp
  with assms have "42 \<le> length (Buffer_slice out 26221838 26222426)" by simp
  then show ?thesis by (rule extractSaveHeaderInfo_total)
qed

text \<open>
  Two runs on the sample buffer, whose level field of slot 0 is zero in all four bytes:
  attributes that sum to 124 give level 45 in the block, in the header table and in the
  decoded summary record; an attribute of 300 makes the run raise.
\<close>

theorem setCharacterStats_level_witness:
  "length (sampleDigest []) = 16 \<and>
   (\<exists>cs. getCharacterStats sampleSaveBuffer 0 = Some cs \<and> statsOffset cs = 828) \<and>
   79 \<le> sum_list (statValues \<lparr>vigor = 40, mind = 10, endurance = 20, strength = 16,
                                dexterity = 12, intelligence = 9, faith = 9, arcane = 8\<rparr>) \<and>
   Buffer_readUInt16LE sampleSaveBuffer 26221874 = Inr 0 \<and>
   (\<exists>out. setCharacterStats sampleDigest sampleSaveBuffer 0
        \<lparr>vigor = 40, mind = 10, endurance = 20, strength = 16,
         dexterity = 12, intelligence = 9, faith = 9, arcane = 8\<rparr>
        \<lparr>godMode = False, customAttributes = True\<rparr> = Inr out \<and>
      Buffer_readUInt16LE out 872 = Inr 45 \<and>
      Buffer_readUInt16LE out 26221872 = Inr 45 \<and>
      Buffer_readUInt8 out 828 = Inr 40 \<and>
      Buffer_readUInt8 out 856 = Inr 8 \<and>
      Buffer_readInt32LE out 26221872 = Inr 45 \<and>
      (\<exists>info. extractSaveHeaderInfo (Buffer_slice out 26221838 26222426) = Inr info \<and>
         characterLevel info = 45)) \<and>
   setCharacterStats sampleDigest sampleSaveBuffer 0
        \<lparr>vigor = 300, mind = 10, endurance = 20, strength = 16,
         dexterity = 12, intelligence = 9, faith = 9, arcane = 8\<rparr>
        \<lparr>godMode = False, customAttributes = True\<rparr> = Inl OutOfBounds"
proof -
  let ?ns = "\<lparr>vigor = 40, mind = 10, endurance = 20, strength = 16,
         dexterity = 12, intelligence = 9, faith = 9, arcane = 8\<rparr>"
  let ?bad = "\<lparr>vigor = 300, mind = 10, endurance = 20, strength = 16,
         dexterity = 12, intelligence = 9, faith = 9, arcane = 8\<rparr>"
  let ?opts = "\<lparr>godMode = False, customAttributes = True\<rparr>"
  have d: "length (sampleDigest xs) = 16" for xs by (simp add: sampleDigest_def)
  have r: "\<forall>v \<in> set (statValues ?ns). 0 \<le> v \<and> v \<le> 255" by (simp add: statValues_def)
  have s: "sum_list (statValues ?ns) = 124" by (simp add: statValues_def)
  then have s': "79 \<le> sum_list (statValues ?ns)" by simp
  from setCharacterStats_level [of sampleDigest sampleSaveBuffer 0 _ ?ns ?opts,
      OF d sampleSaveBuffer_stats] r s'
  obtain out where run: "setCharacterStats sampleDigest sampleSaveBuffer 0 ?ns ?opts = Inr out"
    and len: "length out = length sampleSaveBuffer"
    and a: "Buffer_readUInt16LE out (828 + 44) = Inr (sum_list (statValues ?ns) - 79)"
    and b: "Buffer_readUInt16LE out (26221872 + 0 * 588) = Inr (sum_list (statValues ?ns) - 79)"
    and k: "\<forall>k. k < 8 \<longrightarrow> Buffer_readUInt8 out (828 + 4 * int k) = Inr (statValues ?ns ! k)"
    and u: "\<forall>u. Buffer_readUInt16LE sampleSaveBuffer (26221872 + 0 * 588 + 2) = Inr u \<longrightarrow>
        Buffer_readInt32LE out (26221872 + 0 * 588)
          = Inr (toSigned 32 (sum_list (statValues ?ns) - 79 + 65536 * u))"
    and i: "\<forall>info.
        extractSaveHeaderInfo
          (Buffer_slice out (HEADER_DATA_OFFSET + 0 * HEADER_DATA_LENGTH)
             (HEADER_DATA_OFFSET + 0 * HEADER_DATA_LENGTH + HEADER_DATA_LENGTH))
          = Inr info \<longrightarrow>
        Buffer_readInt32LE out (26221872 + 0 * 588) = Inr (characterLevel info)"
    by auto
  from a s have a': "Buffer_readUInt16LE out 872 = Inr 45" by simp
  from b s have b': "Buffer_readUInt16LE out 26221872 = Inr 45" by simp
  from k [rule_format, of 0] have k0: "Buffer_readUInt8 out 828 = Inr 40"
    by (simp add: statValues_def)
  from k [rule_format, of 7] have k7: "Buffer_readUInt8 out 856 = Inr 8"
    by (simp add: statValues_def)
  from u [rule_format, of 0] sampleSaveBuffer_level(2) s
  have u': "Buffer_readInt32LE out 26221872 = Inr 45"
    by (simp add: toSigned_def)
  from len have "length out = 26608560" by (simp add: length_sampleSaveBuffer)
  from summary_record_decoded [OF this] obtain info where
    e: "extractSaveHeaderInfo (Buffer_slice out 26221838 26222426) = Inr info"
    by blast
  with i [rule_format, of info] u' have "characterLevel info = 45"
    by (simp add: HEADER_DATA_OFFSET_def HEADER_DATA_LENGTH_def)
  with e have e': "\<exists>info. extractSaveHeaderInfo (Buffer_slice out 26221838 26222426) = Inr info \<and>
         characterLevel info = 45"
    by blast
  from run a' b' k0 k7 u' e'
  have ok: "\<exists>out. setCharacterStats sampleDigest sampleSaveBuffer 0 ?ns ?opts = Inr out \<and>
      Buffer_readUInt16LE out 872 = Inr 45 \<and>
      Buffer_readUInt16LE out 26221872 = Inr 45 \<and>
      Buffer_readUInt8 out 828 = Inr 40 \<and>
      Buffer_readUInt8 out 856 = Inr 8 \<and>
      Buffer_readInt32LE out 26221872 = Inr 45 \<and>
      (\<exists>info. extractSaveHeaderInfo (Buffer_slice out 26221838 26222426) = Inr info \<and>
         characterLevel info = 45)"
    by blast
  have "\<exists>v \<in> set (statValues ?bad). v < 0 \<or> 255 < v" by (simp add: statValues_def)
  with setCharacterStats_level [of sampleDigest sampleSaveBuffer 0 _ ?bad ?opts,
      OF d sampleSaveBuffer_stats]
  have bad: "setCharacterStats sampleDigest sampleSaveBuffer 0 ?bad ?opts = Inl OutOfBounds"
    by blast
  have loc: "\<exists>cs. getCharacterStats sampleSaveBuffer 0 = Some cs \<and> statsOffset cs = 828"
    by (simp add: sampleSaveBuffer_stats)
  from d [of "[]"] loc s' sampleSaveBuffer_level(2) ok bad show ?thesis by blast
qed

text \<open>
  C3 as the specification states it fails in two ways. When the attributes sum to less than 79:
  with all eight at 1, the value the user interface puts for an empty field, the new level
  is \<open>-71\<close>, the write of the 16-bit level raises and no buffer is returned. And at the
  header-mirror position when the level field there holds 65536 or more: on the sample
  buffer with the third byte of the field set to 1, attributes that sum to 124 leave the
  level that \<open>extractSaveHeaderInfo\<close> decodes at 65581, not 45.
\<close>

theorem setCharacterStats_level_counterexample:
  "(\<exists>cs. getCharacterStats sampleSaveBuffer 0 = Some cs) \<and>
   sum_list (statValues \<lparr>vigor = 1, mind = 1, endurance = 1, strength = 1,
                         dexterity = 1, intelligence = 1, faith = 1, arcane = 1\<rparr>) = 8 \<and>
   setCharacterStats sampleDigest sampleSaveBuffer 0
     \<lparr>vigor = 1, mind = 1, endurance = 1, strength = 1,
      dexterity = 1, intelligence = 1, faith = 1, arcane = 1\<rparr>
     \<lparr>godMode = False, customAttributes = False\<rparr> = Inl OutOfBounds \<and>
   (\<exists>cs. getCharacterStats sampleHighLevelBuffer 0 = Some cs) \<and>
   sum_list (statValues \<lparr>vigor = 40, mind = 10, endurance = 20, strength = 16,
                         dexterity = 12, intelligence = 9, faith = 9, arcane = 8\<rparr>) - 79 = 45 \<and>
   (\<exists>out. setCharacterStats sampleDigest sampleHighLevelBuffer 0
        \<lparr>vigor = 40, mind = 10, endurance = 20, strength = 16,
         dexterity = 12, intelligence = 9, faith = 9, arcane = 8\<rparr>
        \<lparr>godMode = False, customAttributes = False\<rparr> = Inr out \<and>
      Buffer_readInt32LE out 26221872 = Inr 65581 \<and>
      (\<exists>info. extractSaveHeaderInfo (Buffer_slice out 26221838 26222426) = Inr info \<and>
         characterLevel info = 65581))"
proof -
  let ?ns = "\<lparr>vigor = 1, mind = 1, endurance = 1, strength = 1,
      dexterity = 1, intelligence = 1, faith = 1, arcane = 1\<rparr>"
  let ?opts = "\<lparr>godMode = False, customAttributes = False\<rparr>"
  have r: "\<forall>v \<in> set (statValues ?ns). 0 \<le> v \<and> v \<le> 255" by (simp add: statValues_def)
  have s: "sum_list (statValues ?ns) = 8" by (simp add: statValues_def)
  then have s': "sum_list (statValues ?ns) < 79" by simp
  from setCharacterStats_low_sum [OF sampleSaveBuffer_stats r s'] s sampleSaveBuffer_stats
  have low: "(\<exists>cs. getCharacterStats sampleSaveBuffer 0 = Some cs) \<and>
    sum_list (statValues ?ns) = 8 \<and>
    setCharacterStats sampleDigest sampleSaveBuffer 0 ?ns ?opts = Inl OutOfBounds"
    by simp
  let ?ms = "\<lparr>vigor = 40, mind = 10, endurance = 20, strength = 16,
         dexterity = 12, intelligence = 9, faith = 9, arcane = 8\<rparr>"
  have d: "length (sampleDigest xs) = 16" for xs by (simp add: sampleDigest_def)
  have r2: "\<forall>v \<in> set (statValues ?ms). 0 \<le> v \<and> v \<le> 255" by (simp add: statValues_def)
  have t: "sum_list (statValues ?ms) = 124" by (simp add: statValues_def)
  then have t': "79 \<le> sum_list (statValues ?ms)" by simp
  from setCharacterStats_written [of sampleDigest sampleHighLevelBuffer 0 _ ?ms ?opts,
      OF d sampleHighLevelBuffer_stats r2 t']
  obtain out where
    run: "setCharacterStats sampleDigest sampleHighLevelBuffer 0 ?ms ?opts = Inr out"
    and len: "length out = length sampleHighLevelBuffer"
    and u: "\<forall>u. Buffer_readUInt16LE sampleHighLevelBuffer (26221872 + 0 * 588 + 2) = Inr u \<longrightarrow>
        Buffer_readInt32LE out (26221872 + 0 * 588)
          = Inr (toSigned 32 (sum_list (statValues ?ms) - 79 + 65536 * u))"
    by auto
  from u [rule_format, of 1] sampleHighLevelBuffer_level(2) t
  have u': "Buffer_readInt32LE out 26221872 = Inr 65581"
    by (simp add: toSigned_def)
  from len have "length out = 26608560" by (simp add: length_sampleHighLevelBuffer)
  from summary_record_decoded [OF this] obtain info where
    e: "extractSaveHeaderInfo (Buffer_slice out 26221838 26222426) = Inr info"
    by blast
  from extractSaveHeaderInfo_level [OF e]
  have "Buffer_readInt32LE (Buffer_slice out 26221838 (26221838 + 588)) 34
      = Inr (characterLevel info)"
    by simp
  from Buffer_readInt32LE_slice [OF _ _ _ this]
  have "Buffer_readInt32LE out 26221872 = Inr (characterLevel info)" by simp
  with u' have "characterLevel info = 65581" by simp
  with e have e': "\<exists>info. extractSaveHeaderInfo (Buffer_slice out 26221838 26222426) = Inr info \<and>
         characterLevel info = 65581"
    by blast
  from run u' e'
  have high: "\<exists>out. setCharacterStats sampleDigest sampleHighLevelBuffer 0 ?ms ?opts = Inr out \<and>
      Buffer_readInt32LE out 26221872 = Inr 65581 \<and>
      (\<exists>info. extractSaveHeaderInfo (Buffer_slice out 26221838 26222426) = Inr info \<and>
         characterLevel info = 65581)"
    by blast
  have loc: "\<exists>cs. getCharacterStats sampleHighLevelBuffer 0 = Some cs"
    by (simp add: sampleHighLevelBuffer_stats)
  from t have t45: "sum_list (statValues ?ms) - 79 = 45" by simp
  from low loc t45 high show ?thesis by blast
qed
section \<open>Copying a slot\<close>

lemma sameOutside_chain:
  "sameOutside W1 a b \<Longrightarrow> sameOutside W2 b c \<Longrightarrow> W1 \<subseteq> W \<Longrightarrow> W2 \<subseteq> W \<Longrightarrow>
   sameOutside W a c"
  using sameOutside_mono [OF sameOutside_trans [of W1 a b W2 c], of W] by simp

lemma Buffer_copy_at:
  "\<exists>t'. Buffer_copy src tgt (int p) = Inr t' \<and>
        sameOutside {p ..< p + length src} tgt t' \<and>
        (p + length src \<le> length tgt \<longrightarrow> region t' p (length src) = src)"
  using Buffer_copy_spec [of "int p" src tgt] by simp

text \<open>
  What \<open>copySave\<close> writes, for a target whose entry of slot \<open>i\<close> starts at the checksum of
  the slot window and a source slot that fits the window: the window, the summary record
  and the active flag of slot \<open>i\<close>, and the checksum before the save-headers section.
\<close>

lemma copySave_run:
  assumes md5: "\<And>xs. length (md5 xs) = 16"
    and found: "find (\<lambda>save. index save = int i) (saves target) = Some targetSave"
    and i: "i < 10"
    and layout: "dataOffset (header (gameFile targetSave)) = int (checksumPos i)"
    and len: "26227718 \<le> length (buffer_sf target)"
    and src: "length (headerData source) = 588" "length (saveDataChecksum source) \<le> 16"
      "length (saveData source) \<le> 2621440"
  shows "\<exists>out. copySave md5 source target (int i) = Inr out \<and>
     sameOutside ({checksumPos i ..< checksumPos i + 2621456} \<union>
                  {26221838 + i * 588 ..< 26221838 + i * 588 + 588} \<union> {26221828 + i} \<union>
                  {26215328 ..< 26215344}) (buffer_sf target) out \<and>
     out ! (26221828 + i) = 1 \<and>
     region out (26221838 + i * 588) 588 = headerData source"
proof -
  let ?B = "buffer_sf target"
  let ?d = "checksumPos i"
  let ?h = "26221838 + i * 588"
  let ?a = "26221828 + i"
  let ?W = "{?d ..< ?d + 2621456} \<union> {?h ..< ?h + 588} \<union> {?a} \<union> {26215328 ..< 26215344}"
  from checksumPos_le [OF i] have d_hi: "?d + 2621456 \<le> 26215328" by (simp add: checksumPos_def)
  \<comment> \<open>the checksum of the source\<close>
  from Buffer_copy_at [of "saveDataChecksum source" ?B ?d]
  obtain b1 where c1: "Buffer_copy (saveDataChecksum source) ?B (int ?d) = Inr b1"
    and s1: "sameOutside {?d ..< ?d + length (saveDataChecksum source)} ?B b1"
    by blast
  from s1 have l1: "length b1 = length ?B" by (rule sameOutside_length)
  \<comment> \<open>the save data of the source\<close>
  from Buffer_copy_at [of "saveData source" b1 "?d + 16"]
  obtain b2 where c2: "Buffer_copy (saveData source) b1 (int (?d + 16)) = Inr b2"
    and s2: "sameOutside {?d + 16 ..< ?d + 16 + length (saveData source)} b1 b2"
    by blast
  from s2 l1 have l2: "length b2 = length ?B" by (simp add: sameOutside_length)
  \<comment> \<open>the summary record\<close>
  from Buffer_copy_at [of "headerData source" b2 ?h]
  obtain b3 where c3: "Buffer_copy (headerData source) b2 (int ?h) = Inr b3"
    and s3': "sameOutside {?h ..< ?h + length (headerData source)} b2 b3"
    and r3': "?h + length (headerData source) \<le> length b2 \<longrightarrow>
        region b3 ?h (length (headerData source)) = headerData source"
    by blast
  from s3' src(1) have s3: "sameOutside {?h ..< ?h + 588} b2 b3" by simp
  from i len l2 have "?h + 588 \<le> length b2" by simp
  with r3' src(1) have r3: "region b3 ?h 588 = headerData source" by simp
  from s3 l2 have l3: "length b3 = length ?B" by (simp add: sameOutside_length)
  \<comment> \<open>the active flag\<close>
  define b4 where "b4 = Buffer_set b3 (int ?a) 1"
  have na: "nat (int ?a) = ?a" by (rule nat_int)
  have s4: "sameOutside {?a} b3 b4"
    using Buffer_set_sameOutside [of "int ?a" b3 1] unfolding na b4_def .
  from s4 l3 have l4: "length b4 = length ?B" by (simp add: sameOutside_length)
  from i len l3 have "int ?a < int (length b3)" by simp
  from Buffer_set_nth [of "int ?a" b3 1, OF _ this] have a4: "b4 ! ?a = 1"
    unfolding na b4_def by simp
  \<comment> \<open>the digest of the save data\<close>
  from Buffer_copy_at [of "md5 (saveData source)" b4 ?d]
  obtain b5 where c5: "Buffer_copy (md5 (saveData source)) b4 (int ?d) = Inr b5"
    and s5': "sameOutside {?d ..< ?d + length (md5 (saveData source))} b4 b5"
    by blast
  from s5' have s5: "sameOutside {?d ..< ?d + 16} b4 b5" by (simp add: md5)
  from s5 l4 have l5: "length b5 = length ?B" by (simp add: sameOutside_length)
  \<comment> \<open>the digest of the save-headers section\<close>
  define sec where "sec = Buffer_slice b5 26215344 26608560"
  from Buffer_copy_at [of "md5 sec" b5 26215328]
  obtain out where c6': "Buffer_copy (md5 sec) b5 (int 26215328) = Inr out"
    and s6': "sameOutside {26215328 ..< 26215328 + length (md5 sec)} b5 out"
    by blast
  from c6' have c6: "Buffer_copy (md5 sec) b5 26215328 = Inr out" by simp
  from s6' have s6: "sameOutside {26215328 ..< 26215344} b5 out" by (simp add: md5)
  have run: "copySave md5 source target (int i) = Inr out"
    using found layout c1 c2 c3 c5 c6
    by (simp add: copySave_def Let_def ebind_def CHECKSUM_LENGTH_def HEADER_DATA_OFFSET_def
        HEADER_DATA_LENGTH_def ACTIVE_SAVE_SLOT_OFFSET_def SAVE_HEADERS_SECTION_OFFSET_def
        SAVE_HEADERS_SECTION_LENGTH_def b4_def sec_def add.commute)
  \<comment> \<open>the frame\<close>
  have s12: "sameOutside ?W ?B b2"
    using src by (intro sameOutside_chain [OF s1 s2]) auto
  have s123: "sameOutside ?W ?B b3"
    by (intro sameOutside_chain [OF s12 s3]) auto
  have s1234: "sameOutside ?W ?B b4"
    by (intro sameOutside_chain [OF s123 s4]) auto
  have s12345: "sameOutside ?W ?B b5"
    by (intro sameOutside_chain [OF s1234 s5]) auto
  have frame: "sameOutside ?W ?B out"
    by (intro sameOutside_chain [OF s12345 s6]) auto
  \<comment> \<open>the flag and the record survive the two digests\<close>
  have s56: "sameOutside ({?d ..< ?d + 16} \<union> {26215328 ..< 26215344}) b4 out"
    by (rule sameOutside_trans [OF s5 s6])
  from i len l4 d_hi have "out ! ?a = b4 ! ?a"
    by (intro sameOutside_nth [OF s56]) auto
  with a4 have flag: "out ! ?a = 1" by simp
  have s456: "sameOutside ({?a} \<union> ({?d ..< ?d + 16} \<union> {26215328 ..< 26215344})) b3 out"
    by (rule sameOutside_trans [OF s4 s56])
  have "region out ?h 588 = region b3 ?h 588"
  proof (rule sameOutside_region [OF s456])
    fix n assume "?h \<le> n" "n < ?h + 588"
    with i d_hi show "n \<notin> {?a} \<union> ({?d ..< ?d + 16} \<union> {26215328 ..< 26215344})" by auto
  qed
  with r3 have rec: "region out ?h 588 = headerData source" by simp
  from run frame flag rec show ?thesis by blast
qed

text \<open>
  C4. Let the target be a container whose buffer holds the whole layout up to the end of
  the summary table, in which slot \<open>idx\<close> exists (\<open>0 \<le> idx \<le> 9\<close>) with its entry at the start of
  its slot window, and let the source slot have a 588-byte summary record, a checksum of
  at most 16 bytes and save data that fits the window. Then \<open>copySave\<close> returns a buffer of
  the same length in which the active flag of slot \<open>idx\<close> is 1, the 588 bytes of the summary
  table at \<open>idx\<close> are the summary record of the source, and for every other slot \<open>j\<close> the slot
  window (checksum and data), the summary record and the active flag are as in the buffer of
  the target.
\<close>

theorem copySave_frame:
  assumes "\<And>xs. length (md5 xs) = 16"
    and "find (\<lambda>save. index save = idx) (saves target) = Some targetSave"
    and "0 \<le> idx" and "idx \<le> 9"
    and "dataOffset (header (gameFile targetSave)) = 0x300 + idx * 2621456"
    and "26227718 \<le> length (buffer_sf target)"
    and "length (headerData source) = 588"
    and "length (saveDataChecksum source) \<le> 16"
    and "length (saveData source) \<le> 2621440"
  shows "\<exists>out. copySave md5 source target idx = Inr out \<and>
     length out = length (buffer_sf target) \<and>
     Buffer_get out (ACTIVE_SAVE_SLOT_OFFSET + idx) = Some 1 \<and>
     region out (nat (HEADER_DATA_OFFSET + idx * HEADER_DATA_LENGTH)) 588 = headerData source \<and>
     (\<forall>j. j < 10 \<and> int j \<noteq> idx \<longrightarrow>
        region out (0x300 + j * 2621456) 2621456
          = region (buffer_sf target) (0x300 + j * 2621456) 2621456 \<and>
        region out (nat HEADER_DATA_OFFSET + j * 588) 588
          = region (buffer_sf target) (nat HEADER_DATA_OFFSET + j * 588) 588 \<and>
        out ! (nat ACTIVE_SAVE_SLOT_OFFSET + j) = buffer_sf target ! (nat ACTIVE_SAVE_SLOT_OFFSET + j))"
proof -
  let ?B = "buffer_sf target"
  define i where "i = nat idx"
  from assms(3,4) have i: "i < 10" and idx: "idx = int i" by (simp_all add: i_def)
  from assms(5) have layout: "dataOffset (header (gameFile targetSave)) = int (checksumPos i)"
    by (simp add: idx checksumPos_def)
  let ?W = "{checksumPos i ..< checksumPos i + 2621456} \<union>
            {26221838 + i * 588 ..< 26221838 + i * 588 + 588} \<union> {26221828 + i} \<union>
            {26215328 ..< 26215344}"
  from copySave_run [of md5 i target targetSave source, OF assms(1) _ i layout assms(6-9)]
    assms(2)
  obtain out where run: "copySave md5 source target (int i) = Inr out"
    and frame: "sameOutside ?W ?B out"
    and flag: "out ! (26221828 + i) = 1"
    and rec: "region out (26221838 + i * 588) 588 = headerData source"
    unfolding idx by blast
  from frame have len: "length out = length ?B" by (rule sameOutside_length)
  from i assms(6) len flag have g: "Buffer_get out (ACTIVE_SAVE_SLOT_OFFSET + idx) = Some 1"
    by (simp add: Buffer_get_def ACTIVE_SAVE_SLOT_OFFSET_def idx nat_add_distrib)
  from rec have r: "region out (nat (HEADER_DATA_OFFSET + idx * HEADER_DATA_LENGTH)) 588
      = headerData source"
    by (simp add: HEADER_DATA_OFFSET_def HEADER_DATA_LENGTH_def idx nat_add_distrib
        nat_mult_distrib)
  have other: "region out (0x300 + j * 2621456) 2621456 = region ?B (0x300 + j * 2621456) 2621456 \<and>
        region out (nat HEADER_DATA_OFFSET + j * 588) 588
          = region ?B (nat HEADER_DATA_OFFSET + j * 588) 588 \<and>
        out ! (nat ACTIVE_SAVE_SLOT_OFFSET + j) = ?B ! (nat ACTIVE_SAVE_SLOT_OFFSET + j)"
    if j: "j < 10 \<and> int j \<noteq> idx" for j
  proof (intro conjI)
    from j have ji: "j \<noteq> i" and j10: "j < 10" by (auto simp: idx)
    from checksumPos_le [OF j10] have j_hi: "checksumPos j + 2621456 \<le> 26215328"
      by (simp add: checksumPos_def)
    from checksumPos_le [OF i] have i_hi: "checksumPos i + 2621456 \<le> 26215328"
      by (simp add: checksumPos_def)
    have apart: "checksumPos i + 2621456 \<le> checksumPos j \<or> checksumPos j + 2621456 \<le> checksumPos i"
    proof (cases "i < j")
      case True
      then have "(i + 1) * 2621456 \<le> j * 2621456" by simp
      then show ?thesis by (simp add: checksumPos_def)
    next
      case False
      with ji have "(j + 1) * 2621456 \<le> i * 2621456" by simp
      then show ?thesis by (simp add: checksumPos_def)
    qed
    have "region out (checksumPos j) 2621456 = region ?B (checksumPos j) 2621456"
    proof (rule sameOutside_region [OF frame])
      fix n assume "checksumPos j \<le> n" "n < checksumPos j + 2621456"
      with apart j_hi show "n \<notin> ?W" by auto
    qed
    then show "region out (0x300 + j * 2621456) 2621456 = region ?B (0x300 + j * 2621456) 2621456"
      by (simp add: checksumPos_def)
    have "region out (26221838 + j * 588) 588 = region ?B (26221838 + j * 588) 588"
    proof (rule sameOutside_region [OF frame])
      fix n assume n: "26221838 + j * 588 \<le> n" "n < 26221838 + j * 588 + 588"
      have "i * 588 + 588 \<le> j * 588 \<or> j * 588 + 588 \<le> i * 588"
        using ji by (cases "i < j") auto
      with n i i_hi show "n \<notin> ?W" by auto
    qed
    then show "region out (nat HEADER_DATA_OFFSET + j * 588) 588
          = region ?B (nat HEADER_DATA_OFFSET + j * 588) 588"
      by (simp add: HEADER_DATA_OFFSET_def)
    from j10 assms(6) ji i i_hi
    have "out ! (26221828 + j) = ?B ! (26221828 + j)"
      by (intro sameOutside_nth [OF frame]) auto
    then show "out ! (nat ACTIVE_SAVE_SLOT_OFFSET + j) = ?B ! (nat ACTIVE_SAVE_SLOT_OFFSET + j)"
      by (simp add: ACTIVE_SAVE_SLOT_OFFSET_def)
  qed
  from run len g r other show ?thesis unfolding idx by blast
qed

theorem copySave_frame_witness:
  "length (sampleDigest []) = 16 \<and>
   find (\<lambda>save. index save = 0) (saves sampleTarget) = Some (sampleEmptySlot 0) \<and>
   dataOffset (header (gameFile (sampleEmptySlot 0))) = 0x300 + 0 * 2621456 \<and>
   26227718 \<le> length (buffer_sf sampleTarget) \<and>
   length (headerData sampleSource) = 588 \<and>
   length (saveDataChecksum sampleSource) \<le> 16 \<and>
   length (saveData sampleSource) \<le> 2621440 \<and>
   extractSaveHeaderInfo (headerData sampleSource) = Inr (saveHeaderInfo sampleSource) \<and>
   (\<exists>out. copySave sampleDigest sampleSource sampleTarget 0 = Inr out \<and>
      length out = 26608560 \<and>
      Buffer_get out 26221828 = Some 1 \<and>
      region out 26221838 588 = sampleSummary \<and>
      region out 2622224 2621456 = region (buffer_sf sampleTarget) 2622224 2621456 \<and>
      region out 26222426 588 = region (buffer_sf sampleTarget) 26222426 588 \<and>
      out ! 26221829 = buffer_sf sampleTarget ! 26221829)"
proof -
  have d: "length (sampleDigest xs) = 16" for xs by (simp add: sampleDigest_def)
  have f: "find (\<lambda>save. index save = 0) (saves sampleTarget) = Some (sampleEmptySlot 0)"
    by (simp add: sampleTarget_def sampleEmptySlot_def)
  have o: "dataOffset (header (gameFile (sampleEmptySlot 0))) = 0x300 + 0 * 2621456"
    by (simp add: sampleEmptySlot_def)
  have l: "26227718 \<le> length (buffer_sf sampleTarget)" by (simp add: sampleTarget_def)
  have lb: "length (buffer_sf sampleTarget) = 26608560" by (simp add: sampleTarget_def)
  have h: "length (headerData sampleSource) = 588" "headerData sampleSource = sampleSummary"
    by (simp_all add: sampleSource_def sampleSummary_def)
  have c: "length (saveDataChecksum sampleSource) \<le> 16"
    and s: "length (saveData sampleSource) \<le> 2621440"
    by (simp_all add: sampleSource_def)
  have "extractSaveHeaderInfo sampleSummary
      = Inr \<lparr>characterName = str ''A'', characterLevel = 25, secondsPlayed = 3600\<rparr>"
    by code_simp
  then have e: "extractSaveHeaderInfo (headerData sampleSource)
      = Inr (saveHeaderInfo sampleSource)"
    by (simp add: sampleSource_def)
  from copySave_frame [of sampleDigest 0 sampleTarget "sampleEmptySlot 0" sampleSource,
      OF d f _ _ o l h(1) c s]
  obtain out where r: "copySave sampleDigest sampleSource sampleTarget 0 = Inr out"
    and n: "length out = length (buffer_sf sampleTarget)"
    and a: "Buffer_get out (ACTIVE_SAVE_SLOT_OFFSET + 0) = Some 1"
    and u: "region out (nat (HEADER_DATA_OFFSET + 0 * HEADER_DATA_LENGTH)) 588
        = headerData sampleSource"
    and others: "\<forall>j. j < 10 \<and> int j \<noteq> 0 \<longrightarrow>
        region out (0x300 + j * 2621456) 2621456
          = region (buffer_sf sampleTarget) (0x300 + j * 2621456) 2621456 \<and>
        region out (nat HEADER_DATA_OFFSET + j * 588) 588
          = region (buffer_sf sampleTarget) (nat HEADER_DATA_OFFSET + j * 588) 588 \<and>
        out ! (nat ACTIVE_SAVE_SLOT_OFFSET + j)
          = buffer_sf sampleTarget ! (nat ACTIVE_SAVE_SLOT_OFFSET + j)"
    by auto
  from others [rule_format, of 1]
  have o1: "region out 2622224 2621456 = region (buffer_sf sampleTarget) 2622224 2621456"
    "region out 26222426 588 = region (buffer_sf sampleTarget) 26222426 588"
    "out ! 26221829 = buffer_sf sampleTarget ! 26221829"
    by (simp_all add: HEADER_DATA_OFFSET_def ACTIVE_SAVE_SLOT_OFFSET_def)
  from a have a': "Buffer_get out 26221828 = Some 1" by (simp add: ACTIVE_SAVE_SLOT_OFFSET_def)
  from u h(2) have u': "region out 26221838 588 = sampleSummary"
    by (simp add: HEADER_DATA_OFFSET_def)
  from n lb have n': "length out = 26608560" by simp
  from r n' a' u' o1 have "\<exists>out. copySave sampleDigest sampleSource sampleTarget 0 = Inr out \<and>
      length out = 26608560 \<and>
      Buffer_get out 26221828 = Some 1 \<and>
      region out 26221838 588 = sampleSummary \<and>
      region out 2622224 2621456 = region (buffer_sf sampleTarget) 2622224 2621456 \<and>
      region out 26222426 588 = region (buffer_sf sampleTarget) 26222426 588 \<and>
      out ! 26221829 = buffer_sf sampleTarget ! 26221829"
    by blast
  with d [of "[]"] f o l h(1) c s e show ?thesis by blast
qed

section \<open>The slot extractor\<close>

lemma startsWith_Nil: "\<not> startsWith [] SAVE_IDENTIFIER"
  by (simp add: startsWith_def SAVE_IDENTIFIER_def str_def)

lemma processSave_skipped:
  "spec_skipped gf \<Longrightarrow> processSave buf r gf = Inr (None, r)"
  by (auto simp: spec_skipped_def processSave_def startsWith_Nil
      split: option.splits if_splits)

lemma processSave_retained:
  assumes "processSave buf r gf = Inr (Some s, r')"
  shows "\<not> spec_skipped gf" and "index s \<le> 9" and "gameFile s = gf"
  using assms
  by (auto simp: spec_skipped_def processSave_def Let_def ebind_def readBytes_def
      split: option.splits if_splits sum.splits prod.splits)

lemma processSave_not_skipped:
  assumes "\<not> spec_skipped gf" and "processSave buf r gf = Inr (res, r')"
  shows "res \<noteq> None"
  using assms startsWith_Nil
  by (auto simp: spec_skipped_def processSave_def Let_def ebind_def readBytes_def
      split: option.splits if_splits sum.splits prod.splits)

lemma processSaves_loop_filter:
  "processSaves_loop buf r (filter (\<lambda>gf. \<not> spec_skipped gf) gfs) acc
     = processSaves_loop buf r gfs acc"
proof (induction gfs arbitrary: r acc)
  case Nil
  show ?case by simp
next
  case (Cons gf gfs)
  show ?case
  proof (cases "spec_skipped gf")
    case True
    with Cons.IH show ?thesis by (simp add: processSave_skipped)
  next
    case False
    with Cons.IH show ?thesis by (simp split: sum.splits prod.splits option.splits)
  qed
qed

lemma processSaves_loop_result:
  "processSaves_loop buf r gfs acc = Inr res \<Longrightarrow>
     length res = length acc + length (filter (\<lambda>gf. \<not> spec_skipped gf) gfs) \<and>
     (\<forall>s \<in> set res. s \<in> set acc \<or> index s \<le> 9)"
proof (induction gfs arbitrary: r acc)
  case Nil
  then show ?case by simp
next
  case (Cons gf gfs)
  from Cons.prems obtain o' r' where p: "processSave buf r gf = Inr (o', r')"
    by (cases "processSave buf r gf") (auto split: prod.splits)
  show ?case
  proof (cases o')
    case None
    with p processSave_not_skipped [of gf buf r None r'] have sk: "spec_skipped gf" by auto
    from Cons.prems p None have "processSaves_loop buf r' gfs acc = Inr res" by simp
    from Cons.IH [OF this] sk show ?thesis by simp
  next
    case (Some s)
    with p have keep: "\<not> spec_skipped gf" and le: "index s \<le> 9"
      using processSave_retained [of buf r gf s r'] by simp_all
    from Cons.prems p Some have "processSaves_loop buf r' gfs (acc @ [s]) = Inr res" by simp
    from Cons.IH [OF this] keep le show ?thesis by auto
  qed
qed

text \<open>
  C8, as the code has it. When \<open>processSaves\<close> returns a slot list, the list has one slot
  for every entry that is not skipped, every slot's index is an integer of at most 9, the
  list is sorted ascending by index, and the skipped entries (no name, a name that does
  not start with \<open>USER_DATA\<close>, or a number above 9 after it) do not matter: without them the
  result is the same.
\<close>

theorem processSaves_slots:
  assumes "processSaves buf entries = Inr slots"
  shows "length slots = length (filter (\<lambda>gf. \<not> spec_skipped gf) entries) \<and>
     (\<forall>s \<in> set slots. index s \<le> 9) \<and>
     sorted (map index slots) \<and>
     processSaves buf (filter (\<lambda>gf. \<not> spec_skipped gf) entries) = Inr slots"
proof -
  from assms obtain res where
    loop: "processSaves_loop buf (newBufferReader buf) entries [] = Inr res"
    and slots: "slots = sort_key index res"
    by (auto simp: processSaves_def split: sum.splits)
  from processSaves_loop_result [OF loop]
  have "length res = length (filter (\<lambda>gf. \<not> spec_skipped gf) entries)"
    and "\<forall>s \<in> set res. index s \<le> 9"
    by simp_all
  moreover have "sorted (map index (sort_key index res))" by (rule sorted_sort_key)
  moreover have "processSaves buf (filter (\<lambda>gf. \<not> spec_skipped gf) entries) = Inr slots"
    using assms by (simp add: processSaves_def processSaves_loop_filter)
  ultimately show ?thesis by (simp add: slots)
qed

subsection \<open>Running \<open>processSaves\<close> on a buffer of zeros\<close>

lemma map_insort_key: "map f (insort_key f x xs) = insort (f x) (map f xs)"
  by (induction xs) simp_all

lemma map_sort_key: "map f (sort_key f xs) = sort (map f xs)"
  by (induction xs) (simp_all add: map_insort_key)

lemma extractSaveHeaderInfo_zeros:
  "extractSaveHeaderInfo (replicate 588 0) =
     Inr \<lparr>characterName = str ''Empty Slot'', characterLevel = 0, secondsPlayed = 0\<rparr>"
  by code_simp

lemma extractSaveHeaderInfo_Nil: "extractSaveHeaderInfo [] = Inl OutOfBounds"
  by code_simp

text \<open>
  In a zero buffer of the size of a save file, an entry named by the prefix and a number
  from \<open>-44000\<close> to 9 becomes an empty, inactive slot with that number as its index.
\<close>

lemma processSave_zero_buffer:
  assumes nm: "name (header gf) = Some nm" and st: "startsWith nm SAVE_IDENTIFIER"
    and pi: "parseInt (substring nm (length SAVE_IDENTIFIER)) = Some idx"
    and lo: "-44000 \<le> idx" and hi: "idx \<le> 9"
    and rd: "buffer r = replicate 26608560 0"
  shows "\<exists>s r'. processSave (replicate 26608560 0) r gf = Inr (Some s, r') \<and> index s = idx \<and>
           buffer r' = replicate 26608560 0"
proof -
  let ?B = "replicate 26608560 (0::byte)"
  let ?p = "HEADER_DATA_OFFSET + idx * HEADER_DATA_LENGTH"
  from st startsWith_Nil have ne: "nm \<noteq> []" by auto
  from lo hi have p: "0 \<le> ?p" "nat ?p \<le> 26227130"
    by (simp_all add: HEADER_DATA_OFFSET_def HEADER_DATA_LENGTH_def)
  have "Buffer_slice ?B ?p (?p + HEADER_DATA_LENGTH) = region ?B (nat ?p) 588"
    using Buffer_slice_region [of ?p 588 ?B] p by (simp add: HEADER_DATA_LENGTH_def)
  also from p have "\<dots> = replicate 588 0" by (simp add: region_def min_def)
  finally have rb: "readBytes (seek r ?p) HEADER_DATA_LENGTH
      = Inr (replicate 588 0, (seek r ?p)\<lparr>offset := ?p + HEADER_DATA_LENGTH\<rparr>)"
    by (simp add: readBytes_def seek_def rd)
  show ?thesis
    using nm st ne pi hi rb rd
    by (simp add: processSave_def Let_def ebind_def extractSaveHeaderInfo_zeros seek_def)
qed

lemma processSaves_loop_zero_buffer:
  "list_all2 (\<lambda>gf idx. \<exists>nm. name (header gf) = Some nm \<and> startsWith nm SAVE_IDENTIFIER \<and>
        parseInt (substring nm (length SAVE_IDENTIFIER)) = Some idx \<and> -44000 \<le> idx \<and> idx \<le> 9)
     gfs idxs \<Longrightarrow> buffer r = replicate 26608560 0 \<Longrightarrow>
   \<exists>res. processSaves_loop (replicate 26608560 0) r gfs acc = Inr res \<and>
         map index res = map index acc @ idxs"
proof (induction gfs idxs arbitrary: r acc rule: list_all2_induct)
  case Nil
  show ?case by simp
next
  case (Cons gf gfs idx idxs)
  from Cons.hyps(1) obtain nm where "name (header gf) = Some nm"
    "startsWith nm SAVE_IDENTIFIER"
    "parseInt (substring nm (length SAVE_IDENTIFIER)) = Some idx" "-44000 \<le> idx" "idx \<le> 9"
    by blast
  from processSave_zero_buffer [OF this Cons.prems]
  obtain s r' where p: "processSave (replicate 26608560 0) r gf = Inr (Some s, r')"
    and i: "index s = idx" and b: "buffer r' = replicate 26608560 0"
    by blast
  from Cons.IH [OF b, of "acc @ [s]"] obtain res where
    "processSaves_loop (replicate 26608560 0) r' gfs (acc @ [s]) = Inr res"
    "map index res = map index (acc @ [s]) @ idxs"
    by blast
  with p i show ?case by simp
qed

lemma processSaves_zero_buffer:
  assumes "list_all2 (\<lambda>gf idx. \<exists>nm. name (header gf) = Some nm \<and>
        startsWith nm SAVE_IDENTIFIER \<and>
        parseInt (substring nm (length SAVE_IDENTIFIER)) = Some idx \<and> -44000 \<le> idx \<and> idx \<le> 9)
     gfs idxs"
  shows "\<exists>slots. processSaves (replicate 26608560 0) gfs = Inr slots \<and>
           map index slots = sort idxs"
proof -
  have "buffer (newBufferReader (replicate 26608560 0)) = replicate 26608560 0"
    by (simp add: newBufferReader_def)
  from processSaves_loop_zero_buffer [OF assms this, of "[]"]
  obtain res where
    "processSaves_loop (replicate 26608560 0) (newBufferReader (replicate 26608560 0)) gfs []
       = Inr res"
    "map index res = idxs"
    by auto
  then show ?thesis by (auto simp: processSaves_def map_sort_key)
qed

lemma sample_names:
  "startsWith (str ''USER_DATA000'') SAVE_IDENTIFIER"
  "parseInt (substring (str ''USER_DATA000'') (length SAVE_IDENTIFIER)) = Some 0"
  "startsWith (str ''USER_DATA001'') SAVE_IDENTIFIER"
  "parseInt (substring (str ''USER_DATA001'') (length SAVE_IDENTIFIER)) = Some 1"
  "startsWith (str ''USER_DATA-01'') SAVE_IDENTIFIER"
  "parseInt (substring (str ''USER_DATA-01'') (length SAVE_IDENTIFIER)) = Some (-1)"
  "startsWith (str ''USER_DATA011'') SAVE_IDENTIFIER"
  "parseInt (substring (str ''USER_DATA011'') (length SAVE_IDENTIFIER)) = Some 11"
  "\<not> startsWith (str ''SYSTEM'') SAVE_IDENTIFIER"
  "startsWith (str ''USER_DATAxyz'') SAVE_IDENTIFIER"
  "parseInt (substring (str ''USER_DATAxyz'') (length SAVE_IDENTIFIER)) = None"
  by code_simp+

theorem processSaves_slots_witness:
  "\<exists>slots. processSaves (replicate 26608560 0)
       [sampleEntry (Some (str ''USER_DATA001'')), sampleEntry None,
        sampleEntry (Some (str ''USER_DATA011'')), sampleEntry (Some (str ''SYSTEM'')),
        sampleEntry (Some (str ''USER_DATA000''))] = Inr slots \<and>
     map index slots = [0, 1] \<and> length slots = 2 \<and> sorted (map index slots) \<and>
     processSaves (replicate 26608560 0)
       [sampleEntry (Some (str ''USER_DATA001'')), sampleEntry (Some (str ''USER_DATA000''))]
       = Inr slots"
proof -
  let ?e1 = "sampleEntry (Some (str ''USER_DATA001''))"
  let ?e0 = "sampleEntry (Some (str ''USER_DATA000''))"
  let ?all = "[?e1, sampleEntry None, sampleEntry (Some (str ''USER_DATA011'')),
      sampleEntry (Some (str ''SYSTEM'')), ?e0]"
  have sk: "spec_skipped (sampleEntry None)"
    "spec_skipped (sampleEntry (Some (str ''USER_DATA011'')))"
    "spec_skipped (sampleEntry (Some (str ''SYSTEM'')))"
    "\<not> spec_skipped ?e1" "\<not> spec_skipped ?e0"
    by (simp_all add: spec_skipped_def sampleEntry_def sample_names)
  then have f: "filter (\<lambda>gf. \<not> spec_skipped gf) ?all = [?e1, ?e0]" by simp
  have "list_all2 (\<lambda>gf idx. \<exists>nm. name (header gf) = Some nm \<and> startsWith nm SAVE_IDENTIFIER \<and>
        parseInt (substring nm (length SAVE_IDENTIFIER)) = Some idx \<and> -44000 \<le> idx \<and> idx \<le> 9)
     [?e1, ?e0] [1, 0]"
    by (simp add: sampleEntry_def sample_names)
  from processSaves_zero_buffer [OF this]
  obtain slots where two: "processSaves (replicate 26608560 0) [?e1, ?e0] = Inr slots"
    and ix: "map index slots = [0, 1]"
    by auto
  have all: "processSaves (replicate 26608560 0) ?all = Inr slots"
    using two processSaves_loop_filter [of "replicate 26608560 0"
        "newBufferReader (replicate 26608560 0)" ?all "[]"]
    unfolding f by (simp add: processSaves_def)
  from processSaves_slots [OF all] f ix
  have "length slots = 2" "sorted (map index slots)" by simp_all
  with all ix two show ?thesis by (intro exI [of _ slots]) simp
qed

text \<open>
  C8 as the specification states it fails in each of its bounds. Eleven entries, the ten slots and a
  second entry named \<open>USER_DATA000\<close>, give eleven slots, two of them with index 0; an entry
  named \<open>USER_DATA-01\<close> gives a slot with index \<open>-1\<close>; and an entry whose name has the prefix
  and no number after it is not skipped: \<open>processSaves\<close> raises.
\<close>

theorem processSaves_slots_counterexample:
  "(\<exists>slots. processSaves (replicate 26608560 0)
       [sampleEntry (Some (str ''USER_DATA000'')), sampleEntry (Some (str ''USER_DATA001'')),
        sampleEntry (Some (str ''USER_DATA000''))] = Inr slots \<and>
      map index slots = [0, 0, 1]) \<and>
   (\<exists>slots. processSaves (replicate 26608560 0)
       (map (\<lambda>k. sampleEntry (Some (str ''USER_DATA000''))) [0 ..< 11]) = Inr slots \<and>
      length slots = 11) \<and>
   (\<exists>slots. processSaves (replicate 26608560 0)
       [sampleEntry (Some (str ''USER_DATA-01''))] = Inr slots \<and>
      map index slots = [-1]) \<and>
   processSaves (replicate 26608560 0) [sampleEntry (Some (str ''USER_DATAxyz''))]
     = Inl OutOfBounds"
proof -
  let ?P = "\<lambda>gf idx. \<exists>nm. name (header gf) = Some nm \<and> startsWith nm SAVE_IDENTIFIER \<and>
        parseInt (substring nm (length SAVE_IDENTIFIER)) = Some idx \<and> -44000 \<le> idx \<and> idx \<le> 9"
  let ?e0 = "sampleEntry (Some (str ''USER_DATA000''))"
  let ?e1 = "sampleEntry (Some (str ''USER_DATA001''))"
  have "list_all2 ?P [?e0, ?e1, ?e0] [0, 1, 0]"
    by (simp add: sampleEntry_def sample_names)
  from processSaves_zero_buffer [OF this]
  have a: "\<exists>slots. processSaves (replicate 26608560 0) [?e0, ?e1, ?e0] = Inr slots \<and>
      map index slots = [0, 0, 1]"
    by simp
  have "list_all2 ?P (map (\<lambda>k. ?e0) [0 ..< 11]) (map (\<lambda>k. 0) [0 ..< 11])"
    unfolding list_all2_map1 list_all2_map2
    by (rule list_all2_refl) (simp add: sampleEntry_def sample_names)
  from processSaves_zero_buffer [OF this]
  obtain slots where
    e: "processSaves (replicate 26608560 0) (map (\<lambda>k. ?e0) [0 ..< 11]) = Inr slots"
    and m: "map index slots = sort (map (\<lambda>k. 0) [0 ..< 11])"
    by blast
  from arg_cong [OF m, of length] have "length slots = 11" by simp
  with e have b: "\<exists>slots. processSaves (replicate 26608560 0)
       (map (\<lambda>k. ?e0) [0 ..< 11]) = Inr slots \<and> length slots = 11"
    by blast
  have "list_all2 ?P [sampleEntry (Some (str ''USER_DATA-01''))] [-1]"
    by (simp add: sampleEntry_def sample_names)
  from processSaves_zero_buffer [OF this]
  have c: "\<exists>slots. processSaves (replicate 26608560 0)
       [sampleEntry (Some (str ''USER_DATA-01''))] = Inr slots \<and> map index slots = [-1]"
    by simp
  have d: "processSaves (replicate 26608560 0) [sampleEntry (Some (str ''USER_DATAxyz''))]
     = Inl OutOfBounds"
    using sample_names(10) startsWith_Nil
    by (auto simp: processSaves_def processSave_def sampleEntry_def sample_names(11))
  from a b c d show ?thesis by blast
qed


end
